theory Spec2Isabelle
  imports Main "HOL-Library.Word"
begin

unbundle bit_operations_syntax

section \<open>Data model\<close>

text \<open>
  A JavaScript string is a sequence of UTF-16 code units; a code unit is a natural number
  below \<open>65536\<close>. A \<open>Uint8Array\<close> is a list of natural numbers below \<open>256\<close>. The binary
  strings of the source (\<open>'0'\<close> and \<open>'1'\<close> characters) are lists of booleans, \<open>True\<close> for
  \<open>'1'\<close>. The samples of an \<open>ImageData\<close> (a \<open>Uint8ClampedArray\<close>) are 8-bit words.
\<close>

type_synonym jsstring = "nat list"
type_synonym bytes = "nat list"
type_synonym binary = "bool list"

record ImageData =
  width :: nat
  height :: nat
  data :: "8 word list"

datatype error =
    CapacityExceeded int  \<comment> \<open>\<open>Text too long. Maximum capacity: n characters\<close>\<close>
  | NoMessageFound        \<comment> \<open>\<open>No hidden message found in this image\<close>\<close>
  | InvalidLength         \<comment> \<open>\<open>Invalid message length detected\<close>\<close>
  | ExtractFailed         \<comment> \<open>\<open>Failed to extract message\<close>\<close>

definition js :: "string \<Rightarrow> jsstring" where
  "js s = map of_char s"

definition DELIMITER :: jsstring where
  "DELIMITER = js ''$$END$$''"

definition MAGIC_HEADER :: jsstring where
  "MAGIC_HEADER = js ''STEGO1''"

section \<open>String and array primitives of the platform\<close>

text \<open>\<open>String.prototype.endsWith\<close> and \<open>slice(0, -n)\<close>, \<open>Array.prototype.slice(a, b)\<close>.\<close>

definition endsWith :: "jsstring \<Rightarrow> jsstring \<Rightarrow> bool" where
  "endsWith s d = (length d \<le> length s \<and> drop (length s - length d) s = d)"

definition slice_end :: "'a list \<Rightarrow> nat \<Rightarrow> 'a list" where
  "slice_end s n = take (length s - n) s"

definition slice :: "'a list \<Rightarrow> nat \<Rightarrow> nat \<Rightarrow> 'a list" where
  "slice xs a b = take (b - a) (drop a xs)"

text \<open>\<open>Number.prototype.toString(2)\<close>, \<open>padStart(8, '0')\<close> and \<open>parseInt(s, 2)\<close>.\<close>

fun toString2 :: "nat \<Rightarrow> binary" where
  "toString2 n = (if n < 2 then [n = 1] else toString2 (n div 2) @ [odd n])"

declare toString2.simps [simp del]

definition padStart8 :: "binary \<Rightarrow> binary" where
  "padStart8 b = replicate (8 - length b) False @ b"

definition parseInt2 :: "binary \<Rightarrow> nat" where
  "parseInt2 b = foldl (\<lambda>a c. 2 * a + (if c then 1 else 0)) 0 b"

text \<open>\<open>binary.match(/.{1,8}/g)\<close>: groups of eight, the last one shorter when the length
  is no multiple of eight; the empty list stands for \<open>null\<close> (no match).\<close>

function match8 :: "binary \<Rightarrow> binary list" where
  "match8 b = (if b = [] then [] else take 8 b # match8 (drop 8 b))"
  by pat_completeness auto
termination
  by (relation "measure length") auto

declare match8.simps [simp del]

text \<open>Storing a number into a \<open>Uint8Array\<close>; \<open>DataView.setUint32\<close> and \<open>getUint32\<close>,
  big-endian.\<close>

definition ToUint8 :: "nat \<Rightarrow> nat" where
  "ToUint8 n = n mod 256"

definition setUint32 :: "nat \<Rightarrow> bytes" where
  "setUint32 n =
     (let v = n mod 2 ^ 32
      in [v div 2 ^ 24, (v div 2 ^ 16) mod 256, (v div 2 ^ 8) mod 256, v mod 256])"

definition getUint32 :: "bytes \<Rightarrow> nat" where
  "getUint32 b = foldl (\<lambda>a c. a * 256 + c) 0 (take 4 b)"

subsection \<open>TextEncoder\<close>

text \<open>
  \<open>TextEncoder.encode\<close> first converts the string to scalar values (a surrogate pair is one
  code point, a lone surrogate becomes U+FFFD), then writes each one in UTF-8. Shifts and
  masks are written as \<open>div\<close> and \<open>mod\<close>.
\<close>

definition is_lead :: "nat \<Rightarrow> bool" where
  "is_lead u = (0xD800 \<le> u \<and> u \<le> 0xDBFF)"

definition is_trail :: "nat \<Rightarrow> bool" where
  "is_trail u = (0xDC00 \<le> u \<and> u \<le> 0xDFFF)"

fun scalar_values :: "jsstring \<Rightarrow> nat list" where
  "scalar_values [] = []"
| "scalar_values [u] = (if is_lead u \<or> is_trail u then [0xFFFD] else [u])"
| "scalar_values (u # v # s) =
     (if is_lead u \<and> is_trail v
        then (0x10000 + (u - 0xD800) * 0x400 + (v - 0xDC00)) # scalar_values s
      else if is_lead u \<or> is_trail u then 0xFFFD # scalar_values (v # s)
      else u # scalar_values (v # s))"

definition utf8_bytes :: "nat \<Rightarrow> bytes" where
  "utf8_bytes c =
     (if c < 0x80 then [c]
      else if c < 0x800 then [0xC0 + c div 64, 0x80 + c mod 64]
      else if c < 0x10000 then [0xE0 + c div 4096, 0x80 + (c div 64) mod 64, 0x80 + c mod 64]
      else [0xF0 + c div 262144, 0x80 + (c div 4096) mod 64,
            0x80 + (c div 64) mod 64, 0x80 + c mod 64])"

definition TextEncoder_encode :: "jsstring \<Rightarrow> bytes" where
  "TextEncoder_encode s = concat (map utf8_bytes (scalar_values s))"

subsection \<open>TextDecoder\<close>

text \<open>
  The UTF-8 decoder of the Encoding Standard, a state machine over the bytes. An error is
  \<open>None\<close> in the run; the default decoder replaces it by U+FFFD, the \<open>fatal\<close> one throws.
  A byte that ends a sequence early is handled again in the initial state.
\<close>

record utf8_decoder =
  code_point :: nat
  bytes_seen :: nat
  bytes_needed :: nat
  lower_boundary :: nat
  upper_boundary :: nat

definition utf8_initial :: utf8_decoder where
  "utf8_initial = \<lparr>code_point = 0, bytes_seen = 0, bytes_needed = 0,
                    lower_boundary = 0x80, upper_boundary = 0xBF\<rparr>"

datatype handler_result = Continue | CodePoint nat | Failure | FailureRestore

definition utf8_handler :: "utf8_decoder \<Rightarrow> nat \<Rightarrow> utf8_decoder \<times> handler_result" where
  "utf8_handler st byte =
     (if bytes_needed st = 0 then
        (if byte \<le> 0x7F then (st, CodePoint byte)
         else if 0xC2 \<le> byte \<and> byte \<le> 0xDF
           then (st\<lparr>bytes_needed := 1, code_point := byte mod 32\<rparr>, Continue)
         else if 0xE0 \<le> byte \<and> byte \<le> 0xEF
           then (st\<lparr>lower_boundary := (if byte = 0xE0 then 0xA0 else lower_boundary st),
                    upper_boundary := (if byte = 0xED then 0x9F else upper_boundary st),
                    bytes_needed := 2, code_point := byte mod 16\<rparr>, Continue)
         else if 0xF0 \<le> byte \<and> byte \<le> 0xF4
           then (st\<lparr>lower_boundary := (if byte = 0xF0 then 0x90 else lower_boundary st),
                    upper_boundary := (if byte = 0xF4 then 0x8F else upper_boundary st),
                    bytes_needed := 3, code_point := byte mod 8\<rparr>, Continue)
         else (st, Failure))
      else if byte < lower_boundary st \<or> upper_boundary st < byte
        then (utf8_initial, FailureRestore)
      else
        (let st1 = st\<lparr>lower_boundary := 0x80, upper_boundary := 0xBF,
                       code_point := code_point st * 64 + byte mod 64,
                       bytes_seen := bytes_seen st + 1\<rparr>
         in if bytes_seen st1 \<noteq> bytes_needed st1 then (st1, Continue)
            else (utf8_initial, CodePoint (code_point st1))))"

function utf8_run :: "utf8_decoder \<Rightarrow> bytes \<Rightarrow> nat option list" where
  "utf8_run st [] = (if bytes_needed st \<noteq> 0 then [None] else [])"
| "utf8_run st (b # bs) =
     (case snd (utf8_handler st b) of
        Continue \<Rightarrow> utf8_run (fst (utf8_handler st b)) bs
      | CodePoint c \<Rightarrow> Some c # utf8_run (fst (utf8_handler st b)) bs
      | Failure \<Rightarrow> None # utf8_run (fst (utf8_handler st b)) bs
      | FailureRestore \<Rightarrow> None # utf8_run (fst (utf8_handler st b)) (b # bs))"
  by pat_completeness auto
termination
  by (relation "measure (\<lambda>(st, bs). 2 * length bs + (if bytes_needed st = 0 then 0 else 1))")
     (auto simp: utf8_handler_def utf8_initial_def Let_def split: if_splits)

definition utf16_units :: "nat \<Rightarrow> jsstring" where
  "utf16_units c =
     (if c < 0x10000 then [c]
      else [0xD800 + (c - 0x10000) div 0x400, 0xDC00 + (c - 0x10000) mod 0x400])"

text \<open>The decoders are created without \<open>ignoreBOM\<close>: a leading U+FEFF is dropped.\<close>

definition strip_bom :: "nat list \<Rightarrow> nat list" where
  "strip_bom cs = (case cs of [] \<Rightarrow> [] | c # r \<Rightarrow> if c = 0xFEFF then r else cs)"

definition TextDecoder_decode :: "bytes \<Rightarrow> jsstring" where
  "TextDecoder_decode b =
     concat (map utf16_units (strip_bom
       (map (\<lambda>r. case r of None \<Rightarrow> 0xFFFD | Some c \<Rightarrow> c) (utf8_run utf8_initial b))))"

definition TextDecoder_decode_fatal :: "bytes \<Rightarrow> jsstring option" where
  "TextDecoder_decode_fatal b =
     (let run = utf8_run utf8_initial b
      in if None \<in> set run then None
         else Some (concat (map utf16_units (strip_bom (map the run)))))"

section \<open>The codec (current format)\<close>

definition calculateCapacity :: "int \<Rightarrow> int \<Rightarrow> int" where
  "calculateCapacity w h =
     (let totalBits = w * h * 3;
          headerBits = (int (length MAGIC_HEADER) + 4) * 8;
          delimiterBits = int (length DELIMITER) * 8
      in (totalBits - headerBits - delimiterBits) div 8)"

definition bytes_to_binary :: "bytes \<Rightarrow> binary" where
  "bytes_to_binary b = concat (map (\<lambda>x. padStart8 (toString2 x)) b)"

text \<open>The write loop of \<open>encodeText\<close>: \<open>i\<close> is the index of the first sample of the list,
  the third argument the bits not yet written.\<close>

fun embed :: "nat \<Rightarrow> 8 word list \<Rightarrow> binary \<Rightarrow> 8 word list" where
  "embed i [] bits = []"
| "embed i (d # ds) [] = d # ds"
| "embed i (d # ds) (b # bits) =
     (if (i + 1) mod 4 = 0 then d # embed (i + 1) ds (b # bits)
      else ((d AND 0xFE) OR (if b then 1 else 0)) # embed (i + 1) ds bits)"

definition encodeText :: "ImageData \<Rightarrow> jsstring \<Rightarrow> error + ImageData" where
  "encodeText imageData secretText =
     (let fullMessage = secretText @ DELIMITER;
          messageBytes = TextEncoder_encode fullMessage;
          headerBytes = TextEncoder_encode MAGIC_HEADER;
          lengthBytes = setUint32 (length messageBytes);
          totalBytes = headerBytes @ lengthBytes @ messageBytes;
          binaryText = bytes_to_binary totalBytes;
          maxBits = width imageData * height imageData * 3
      in if length binaryText > maxBits
           then Inl (CapacityExceeded
                  (int maxBits div 8 - int (length headerBytes) - int (length lengthBytes)
                     - int (length DELIMITER)))
         else Inr (imageData\<lparr>data := embed 0 (data imageData) binaryText\<rparr>))"

text \<open>The read loops of \<open>decodeText\<close>: they stop when \<open>limit\<close> bits are read.\<close>

fun extract_bits :: "nat \<Rightarrow> nat \<Rightarrow> 8 word list \<Rightarrow> binary \<Rightarrow> binary" where
  "extract_bits limit i [] binaryText = binaryText"
| "extract_bits limit i (d # ds) binaryText =
     (if length binaryText < limit then
        (if (i + 1) mod 4 = 0 then extract_bits limit (i + 1) ds binaryText
         else extract_bits limit (i + 1) ds (binaryText @ [d AND 1 = 1]))
      else binaryText)"

text \<open>The legacy scan. Its result is \<open>Inr\<close> on \<open>return\<close>, and \<open>Inl NoMessageFound\<close> when the
  loop ends or breaks.\<close>

definition legacy_append :: "jsstring \<Rightarrow> nat \<Rightarrow> jsstring" where
  "legacy_append text charCode =
     (if 32 \<le> charCode \<and> charCode \<le> 126 then text @ [charCode]
      else if charCode > 0 then
        (case TextDecoder_decode_fatal [ToUint8 charCode] of
           Some s \<Rightarrow> text @ s
         | None \<Rightarrow> text @ [charCode])
      else text)"

fun legacy_scan :: "nat \<Rightarrow> 8 word list \<Rightarrow> binary \<Rightarrow> jsstring \<Rightarrow> error + jsstring" where
  "legacy_scan i [] binaryText text = Inl NoMessageFound"
| "legacy_scan i (d # ds) binaryText text =
     (if (i + 1) mod 4 = 0 then legacy_scan (i + 1) ds binaryText text
      else
        (let binaryText' = binaryText @ [d AND 1 = 1]
         in if length binaryText' mod 8 = 0 then
              (let byte = drop (length binaryText' - 8) binaryText';
                   charCode = parseInt2 byte;
                   text' = legacy_append text charCode
               in if endsWith text' DELIMITER then Inr (slice_end text' (length DELIMITER))
                  else if length text' > 1000000 then Inl NoMessageFound
                  else legacy_scan (i + 1) ds binaryText' text')
            else legacy_scan (i + 1) ds binaryText' text))"

definition decodeLegacyFormat :: "ImageData \<Rightarrow> error + jsstring" where
  "decodeLegacyFormat imageData = legacy_scan 0 (data imageData) [] []"

definition decodeText :: "ImageData \<Rightarrow> error + jsstring" where
  "decodeText imageData =
     (let headerSize = length MAGIC_HEADER + 4;
          headerBits = headerSize * 8;
          binaryText = extract_bits headerBits 0 (data imageData) [];
          headerBytes = match8 binaryText
      in if headerBytes = [] \<or> length headerBytes < headerSize then Inl NoMessageFound
         else
           (let extractedBytes = map parseInt2 (take headerSize headerBytes);
                magicBytes = map ToUint8 (slice extractedBytes 0 (length MAGIC_HEADER));
                magic = TextDecoder_decode magicBytes
            in if magic \<noteq> MAGIC_HEADER then decodeLegacyFormat imageData
               else
                 (let lengthBytes = map ToUint8
                        (slice extractedBytes (length MAGIC_HEADER) (length MAGIC_HEADER + 4));
                      messageLength = getUint32 lengthBytes;
                      maxPossibleLength = (length (data imageData) * 3) div (4 * 8)
                  in if messageLength > maxPossibleLength \<or> messageLength > 10000000
                       then Inl InvalidLength
                     else
                       (let totalBitsNeeded = (headerSize + messageLength) * 8;
                            binaryText2 = extract_bits totalBitsNeeded 0 (data imageData) [];
                            allBytes = match8 binaryText2
                        in if allBytes = [] then Inl ExtractFailed
                           else
                             (let messageByteStrings =
                                    slice allBytes headerSize (headerSize + messageLength);
                                  messageBytes = map (\<lambda>b. ToUint8 (parseInt2 b)) messageByteStrings;
                                  message = TextDecoder_decode messageBytes
                              in Inr (if endsWith message DELIMITER
                                        then slice_end message (length DELIMITER)
                                      else message))))))"

section \<open>The legacy encoder\<close>

text \<open>The earlier \<open>steganography.ts\<close>: no header, one \<open>charCodeAt\<close> per character, which
  gives more than eight bits for a code unit above 255.\<close>

definition legacy_textToBinary :: "jsstring \<Rightarrow> binary" where
  "legacy_textToBinary text = concat (map (\<lambda>c. padStart8 (toString2 c)) text)"

definition legacy_calculateCapacity :: "int \<Rightarrow> int \<Rightarrow> int" where
  "legacy_calculateCapacity w h =
     (let totalBits = w * h * 3;
          delimiterBits = int (length DELIMITER) * 8
      in (totalBits - delimiterBits) div 8)"

definition legacy_encodeText :: "ImageData \<Rightarrow> jsstring \<Rightarrow> error + ImageData" where
  "legacy_encodeText imageData secretText =
     (let textWithDelimiter = secretText @ DELIMITER;
          binaryText = legacy_textToBinary textWithDelimiter;
          maxCapacity = legacy_calculateCapacity (int (width imageData)) (int (height imageData))
      in if int (length textWithDelimiter) > maxCapacity then Inl (CapacityExceeded maxCapacity)
         else Inr (imageData\<lparr>data := embed 0 (data imageData) binaryText\<rparr>))"

section \<open>Rasters and frames used in the statements\<close>

text \<open>A black, transparent raster of the given size, and the same raster carrying a bit
  string in its colour samples.\<close>

definition blank :: "nat \<Rightarrow> nat \<Rightarrow> ImageData" where
  "blank w h = \<lparr>width = w, height = h, data = replicate (4 * w * h) 0\<rparr>"

definition carrier :: "nat \<Rightarrow> nat \<Rightarrow> binary \<Rightarrow> ImageData" where
  "carrier w h bits = \<lparr>width = w, height = h, data = embed 0 (replicate (4 * w * h) 0) bits\<rparr>"

text \<open>The bit stream of a raster: the lowest bit of every sample that is not an alpha
  sample, in index order; \<open>i\<close> is the index of the first sample of the list.\<close>

fun rgb_bits :: "nat \<Rightarrow> 8 word list \<Rightarrow> binary" where
  "rgb_bits i [] = []"
| "rgb_bits i (d # ds) =
     (if (i + 1) mod 4 = 0 then rgb_bits (i + 1) ds else (d AND 1 = 1) # rgb_bits (i + 1) ds)"

text \<open>The eight binary digits of a byte, and the byte sequence \<open>encodeText\<close> writes.\<close>

definition byte_bits :: "nat \<Rightarrow> binary" where
  "byte_bits x = padStart8 (toString2 x)"

definition frame :: "jsstring \<Rightarrow> bytes" where
  "frame text = MAGIC_HEADER @ setUint32 (length (TextEncoder_encode text) + 7)
                  @ TextEncoder_encode text @ DELIMITER"

text \<open>The last step of the current-format path of \<open>decodeText\<close>, and validity of a
  byte sequence as UTF-8: the decoder meets no error.\<close>

definition strip_delimiter :: "jsstring \<Rightarrow> jsstring" where
  "strip_delimiter m = (if endsWith m DELIMITER then slice_end m (length DELIMITER) else m)"

definition valid_utf8 :: "bytes \<Rightarrow> bool" where
  "valid_utf8 b = (None \<notin> set (utf8_run utf8_initial b))"

text \<open>A string is well formed when it has no lone surrogate; a scalar value is a code
  point that is no surrogate.\<close>

fun well_formed :: "jsstring \<Rightarrow> bool" where
  "well_formed [] = True"
| "well_formed [u] = (u < 0x10000 \<and> \<not> is_lead u \<and> \<not> is_trail u)"
| "well_formed (u # v # s) =
     (if is_lead u then is_trail v \<and> well_formed s
      else u < 0x10000 \<and> \<not> is_trail u \<and> well_formed (v # s))"

definition scalar :: "nat \<Rightarrow> bool" where
  "scalar c = (c < 0x110000 \<and> \<not> (0xD800 \<le> c \<and> c \<le> 0xDFFF))"

text \<open>The legacy scan on the bit stream alone, and the texts whose first delimiter, after
  the delimiter is appended, is the appended one.\<close>

fun legacy_bits :: "binary \<Rightarrow> binary \<Rightarrow> jsstring \<Rightarrow> error + jsstring" where
  "legacy_bits [] binaryText text = Inl NoMessageFound"
| "legacy_bits (b # bits) binaryText text =
     (let binaryText' = binaryText @ [b]
      in if length binaryText' mod 8 = 0 then
           (let text' = legacy_append text (parseInt2 (drop (length binaryText' - 8) binaryText'))
            in if endsWith text' DELIMITER then Inr (slice_end text' (length DELIMITER))
               else if length text' > 1000000 then Inl NoMessageFound
               else legacy_bits bits binaryText' text')
         else legacy_bits bits binaryText' text)"

definition first_delimiter_last :: "jsstring \<Rightarrow> bool" where
  "first_delimiter_last t =
     list_all (\<lambda>k. \<not> endsWith (take k (t @ DELIMITER)) DELIMITER)
       [0 ..< length t + length DELIMITER]"

section \<open>Properties of the primitives\<close>

lemma length_MAGIC [simp]: "length MAGIC_HEADER = 6"
  by (simp add: MAGIC_HEADER_def js_def)

lemma length_DELIMITER [simp]: "length DELIMITER = 7"
  by (simp add: DELIMITER_def js_def)

lemma DELIMITER_eq: "DELIMITER = [36, 36, 69, 78, 68, 36, 36]"
  by (simp add: DELIMITER_def js_def)

lemma MAGIC_eq: "MAGIC_HEADER = [83, 84, 69, 71, 79, 49]"
  by (simp add: MAGIC_HEADER_def js_def)

subsection \<open>Binary strings\<close>

lemma parseInt2_snoc: "parseInt2 (b @ [c]) = 2 * parseInt2 b + (if c then 1 else 0)"
  by (simp add: parseInt2_def)

lemma parseInt2_Nil [simp]: "parseInt2 [] = 0"
  by (simp add: parseInt2_def)

lemma parseInt2_toString2: "parseInt2 (toString2 n) = n"
proof (induction n rule: toString2.induct)
  case (1 n)
  show ?case
  proof (cases "n < 2")
    case True
    then have "n = 0 \<or> n = 1" by auto
    then show ?thesis by (auto simp: toString2.simps [of n] parseInt2_def)
  next
    case False
    with 1 have "parseInt2 (toString2 (n div 2)) = n div 2" by simp
    with False show ?thesis
      by (simp add: toString2.simps [of n] parseInt2_snoc)
  qed
qed

lemma length_toString2: "n < 2 ^ k \<Longrightarrow> 0 < k \<Longrightarrow> length (toString2 n) \<le> k"
proof (induction n arbitrary: k rule: toString2.induct)
  case (1 n)
  show ?case
  proof (cases "n < 2")
    case True
    with 1 show ?thesis by (simp add: toString2.simps [of n])
  next
    case False
    with "1.prems" obtain j where k: "k = Suc j" by (cases k) auto
    with "1.prems" False have "n div 2 < 2 ^ j" "0 < j"
      by (auto simp: less_mult_imp_div_less mult.commute intro: Suc_lessI gr0I)
    with 1 False have "length (toString2 (n div 2)) \<le> j" by blast
    with False k show ?thesis by (simp add: toString2.simps [of n])
  qed
qed

lemma parseInt2_replicate_False [simp]: "parseInt2 (replicate k False @ b) = parseInt2 b"
proof -
  have "foldl (\<lambda>a c. 2 * a + (if c then 1 else 0)) (0::nat) (replicate k False) = 0"
    by (induction k) auto
  then show ?thesis by (simp add: parseInt2_def)
qed

lemma parseInt2_byte_bits [simp]: "parseInt2 (byte_bits x) = x"
  by (simp add: byte_bits_def padStart8_def parseInt2_toString2)

lemma length_byte_bits [simp]: "x < 256 \<Longrightarrow> length (byte_bits x) = 8"
  using length_toString2 [of x 8] by (simp add: byte_bits_def padStart8_def)

lemma parseInt2_bound: "parseInt2 b < 2 ^ length b"
proof (induction b rule: rev_induct)
  case (snoc c b)
  then show ?case by (simp add: parseInt2_snoc)
qed simp

lemma bytes_to_binary_alt: "bytes_to_binary b = concat (map byte_bits b)"
  by (simp add: bytes_to_binary_def byte_bits_def [abs_def])

lemma bytes_to_binary_simps [simp]:
  "bytes_to_binary [] = []"
  "bytes_to_binary (x # b) = byte_bits x @ bytes_to_binary b"
  "bytes_to_binary (a @ b) = bytes_to_binary a @ bytes_to_binary b"
  by (simp_all add: bytes_to_binary_alt)

lemma length_bytes_to_binary:
  "\<forall>x\<in>set b. x < 256 \<Longrightarrow> length (bytes_to_binary b) = 8 * length b"
  by (induction b) auto

lemma match8_Nil [simp]: "match8 [] = []"
  by (simp add: match8.simps)

lemma match8_chunk: "length c = 8 \<Longrightarrow> match8 (c @ b) = c # match8 b"
  by (subst match8.simps) auto

lemma match8_short: "b \<noteq> [] \<Longrightarrow> length b \<le> 8 \<Longrightarrow> match8 b = [b]"
  by (subst match8.simps) auto

lemma match8_bytes:
  "\<forall>x\<in>set b. x < 256 \<Longrightarrow> match8 (bytes_to_binary b @ t) = map byte_bits b @ match8 t"
  by (induction b) (auto simp: match8_chunk)

lemma take_bytes_to_binary:
  "\<forall>x\<in>set b. x < 256 \<Longrightarrow> k \<le> length b \<Longrightarrow>
   take (8 * k) (bytes_to_binary b @ t) = bytes_to_binary (take k b)"
proof (induction b arbitrary: k)
  case (Cons x b)
  show ?case
  proof (cases k)
    case (Suc j)
    with Cons.prems have "take (8 * j) (bytes_to_binary b @ t) = bytes_to_binary (take j b)"
      by (intro Cons.IH) auto
    with Suc Cons.prems show ?thesis by simp
  qed simp
qed simp

subsection \<open>The bit stream of a raster\<close>

lemma extract_bits_rgb:
  "extract_bits limit i ds acc = (if length acc < limit then acc @ take (limit - length acc) (rgb_bits i ds) else acc)"
proof (induction ds arbitrary: i acc)
  case (Cons d ds)
  show ?case
    by (auto simp: Cons.IH take_Cons' Suc_diff_Suc less_Suc_eq)
qed simp

lemma bit_written [simp]:
  "(((d AND 0xFE) OR (if b then 1 else 0)) AND 1 = 1) = b" for d :: "8 word"
proof -
  have a: "(d AND 0xFE) AND 1 = 0" by (simp add: and.assoc)
  have "((d AND 0xFE) OR 1) AND 1 = 1" by (simp add: bit.conj_disj_distrib2 a)
  with a show ?thesis by (cases b) simp_all
qed

lemma rgb_bits_embed:
  "length bits \<le> length (rgb_bits i ds) \<Longrightarrow>
   rgb_bits i (embed i ds bits) = bits @ drop (length bits) (rgb_bits i ds)"
  by (induction i ds bits rule: embed.induct) auto

lemma rgb_bits_pixel:
  "i mod 4 = 0 \<Longrightarrow> rgb_bits i (a # b # c # d # ds) =
     (a AND 1 = 1) # (b AND 1 = 1) # (c AND 1 = 1) # rgb_bits (Suc (Suc (Suc (Suc i)))) ds"
proof -
  assume "i mod 4 = 0"
  then have "Suc i mod 4 \<noteq> 0" "Suc (Suc i) mod 4 \<noteq> 0" "Suc (Suc (Suc i)) mod 4 \<noteq> 0"
    "Suc (Suc (Suc (Suc i))) mod 4 = 0" by presburger+
  then show ?thesis by simp
qed

lemma length_rgb_bits:
  "length ds = 4 * n \<Longrightarrow> i mod 4 = 0 \<Longrightarrow> length (rgb_bits i ds) = 3 * n"
proof (induction n arbitrary: i ds)
  case (Suc n)
  from Suc.prems have "length ds = Suc (Suc (Suc (Suc (4 * n))))" by simp
  then obtain a b c d ds' where ds: "ds = a # b # c # d # ds'" "length ds' = 4 * n"
    by (auto simp: length_Suc_conv)
  from Suc.prems have "Suc (Suc (Suc (Suc i))) mod 4 = 0" by presburger
  with ds have "length (rgb_bits (Suc (Suc (Suc (Suc i)))) ds') = 3 * n"
    by (intro Suc.IH)
  with ds Suc.prems show ?case by (simp add: rgb_bits_pixel del: rgb_bits.simps)
qed simp

lemma rgb_bits_zero:
  "rgb_bits i (replicate n 0) = replicate (length (rgb_bits i (replicate n 0))) False"
  by (induction n arbitrary: i) auto


subsection \<open>Text encoding\<close>

lemma scalar_values_ascii: "\<forall>c\<in>set s. c < 128 \<Longrightarrow> scalar_values s = s"
  by (induction s rule: scalar_values.induct) (auto simp: is_lead_def is_trail_def)

lemma encode_ascii: "\<forall>c\<in>set s. c < 128 \<Longrightarrow> TextEncoder_encode s = s"
proof -
  assume a: "\<forall>c\<in>set s. c < 128"
  then have "concat (map utf8_bytes s) = s"
    by (induction s) (auto simp: utf8_bytes_def)
  with a show ?thesis by (simp add: TextEncoder_encode_def scalar_values_ascii)
qed

lemma encode_MAGIC [simp]: "TextEncoder_encode MAGIC_HEADER = MAGIC_HEADER"
  by (rule encode_ascii) (simp add: MAGIC_eq)

lemma encode_DELIMITER [simp]: "TextEncoder_encode DELIMITER = DELIMITER"
  by (rule encode_ascii) (simp add: DELIMITER_eq)

lemma scalar_values_bound: "\<forall>u\<in>set s. u < 65536 \<Longrightarrow> \<forall>c\<in>set (scalar_values s). c < 1114112"
  by (induction s rule: scalar_values.induct) (auto simp: is_lead_def is_trail_def)

lemma utf8_bytes_bound: "c < 1114112 \<Longrightarrow> \<forall>x\<in>set (utf8_bytes c). x < 256"
  by (auto simp: utf8_bytes_def)

lemma encode_bound: "\<forall>u\<in>set s. u < 65536 \<Longrightarrow> \<forall>x\<in>set (TextEncoder_encode s). x < 256"
  using scalar_values_bound [of s] by (auto simp: TextEncoder_encode_def dest!: utf8_bytes_bound)

lemma scalar_values_append:
  "\<not> is_trail c \<Longrightarrow> scalar_values (s @ c # t) = scalar_values s @ scalar_values (c # t)"
  by (induction s rule: scalar_values.induct) auto

lemma encode_append_DELIMITER:
  "TextEncoder_encode (s @ DELIMITER) = TextEncoder_encode s @ DELIMITER"
proof -
  have "scalar_values (s @ DELIMITER) = scalar_values s @ scalar_values DELIMITER"
    unfolding DELIMITER_eq by (rule scalar_values_append) (simp add: is_trail_def)
  then have "TextEncoder_encode (s @ DELIMITER) = TextEncoder_encode s @ TextEncoder_encode DELIMITER"
    by (simp add: TextEncoder_encode_def)
  then show ?thesis by simp
qed

lemma setUint32_bound: "\<forall>x\<in>set (setUint32 n). x < 256"
proof -
  have "n mod 2 ^ 32 div 2 ^ 24 < 256"
    by (rule less_mult_imp_div_less) simp
  then show ?thesis by (simp add: setUint32_def Let_def)
qed

lemma length_setUint32 [simp]: "length (setUint32 n) = 4"
  by (simp add: setUint32_def Let_def)

lemma getUint32_setUint32: "getUint32 (map ToUint8 (setUint32 n)) = n mod 2 ^ 32"
proof -
  define v where "v = n mod 2 ^ 32"
  define a where "a = v div 256"
  define b where "b = a div 256"
  define c where "c = b div 256"
  have vb: "v div 2 ^ 16 = b" using div_mult2_eq [of v 256 256] by (simp add: a_def b_def)
  have vc: "v div 2 ^ 24 = c" using div_mult2_eq [of v 65536 256] vb by (simp add: c_def)
  have va: "v div 2 ^ 8 = a" by (simp add: a_def)
  have "v < 2 ^ 32" by (simp add: v_def)
  then have "c < 256" unfolding vc [symmetric] by (simp add: less_mult_imp_div_less)
  then have c: "c mod 256 = c" by simp
  have 1: "v = a * 256 + v mod 256" by (simp add: a_def)
  have 2: "a = b * 256 + a mod 256" by (simp add: b_def)
  have 3: "b = c * 256 + b mod 256" by (simp add: c_def)
  have "((c * 256 + b mod 256) * 256 + a mod 256) * 256 + v mod 256 = v"
    using 1 2 3 by simp
  then show ?thesis
    unfolding getUint32_def setUint32_def Let_def ToUint8_def v_def [symmetric] vb vc va
    by (simp add: c)
qed

subsection \<open>encodeText\<close>

lemma frame_bound: "\<forall>u\<in>set t. u < 65536 \<Longrightarrow> \<forall>x\<in>set (frame t). x < 256"
  using encode_bound [of t] setUint32_bound
  by (auto simp: frame_def MAGIC_eq DELIMITER_eq)

lemma length_frame [simp]: "length (frame t) = 17 + length (TextEncoder_encode t)"
  by (simp add: frame_def)

lemma encodeText_frame:
  "encodeText r t =
     (if length (bytes_to_binary (frame t)) > width r * height r * 3
        then Inl (CapacityExceeded (int (width r * height r * 3) div 8 - 17))
      else Inr (r\<lparr>data := embed 0 (data r) (bytes_to_binary (frame t))\<rparr>))"
  by (simp add: encodeText_def Let_def frame_def encode_append_DELIMITER)

section \<open>Capacity\<close>

lemma cap_eq: "calculateCapacity w h = (w * h * 3 - 136) div 8"
  by (simp add: calculateCapacity_def Let_def)

text \<open>
  Claim C3, as the code has it: \<open>calculateCapacity\<close> is the floored quotient
  \<open>(3wh - 136) div 8\<close> with no clamp. It is non-negative exactly when the raster has at
  least 136 usable bits, and it is \<open>-17\<close>, not \<open>0\<close>, when the width or the height is \<open>0\<close>.
\<close>

theorem C3_amended: "calculateCapacity w h = (w * h * 3 - 136) div 8 \<and>
   (0 \<le> calculateCapacity w h) = (136 \<le> w * h * 3) \<and>
   calculateCapacity 0 h = - 17 \<and> calculateCapacity w 0 = - 17"
proof -
  have "(0 \<le> (w * h * 3 - 136) div 8) = (136 \<le> w * h * 3)" by presburger
  then show ?thesis by (simp add: cap_eq)
qed

text \<open>Claim C3 as stated fails: a raster of width \<open>0\<close> has capacity \<open>-17\<close>.\<close>

theorem C3_counterexample: "calculateCapacity 0 1 = - 17 \<and> \<not> 0 \<le> calculateCapacity 0 1"
  by (simp add: cap_eq)

lemma length_frame_bits:
  "\<forall>u\<in>set t. u < 65536 \<Longrightarrow>
   length (bytes_to_binary (frame t)) = 8 * (17 + length (TextEncoder_encode t))"
  by (simp add: length_bytes_to_binary frame_bound)

text \<open>
  Claim C6: a 10 by 10 raster has capacity 20; \<open>encodeText\<close> returns a buffer for every
  ASCII text of 20 characters and fails with \<open>CapacityExceeded\<close> for every ASCII text of 21.
\<close>

theorem C6:
  assumes "width r = 10" and "height r = 10" and "\<forall>c\<in>set t. c < 128"
  shows "calculateCapacity 10 10 = 20 \<and>
         (length t = 20 \<longrightarrow> (\<exists>r'. encodeText r t = Inr r')) \<and>
         (length t = 21 \<longrightarrow> encodeText r t = Inl (CapacityExceeded 20))"
proof -
  from assms(3) have "\<forall>u\<in>set t. u < 65536" by auto
  then have "length (bytes_to_binary (frame t)) = 8 * (17 + length t)"
    using assms(3) by (simp add: length_frame_bits encode_ascii)
  then show ?thesis using assms(1,2)
    by (simp add: encodeText_frame cap_eq)
qed

theorem C6_witness:
  "calculateCapacity 10 10 = 20 \<and>
   (\<exists>r'. encodeText (blank 10 10) (replicate 20 97) = Inr r') \<and>
   encodeText (blank 10 10) (replicate 21 97) = Inl (CapacityExceeded 20)"
  using C6 [of "blank 10 10" "replicate 20 97"] C6 [of "blank 10 10" "replicate 21 97"]
  by (simp add: blank_def)

section \<open>Alpha samples\<close>

lemma length_embed [simp]: "length (embed i ds bits) = length ds"
  by (induction i ds bits rule: embed.induct) auto

lemma embed_alpha:
  "j < length ds \<Longrightarrow> (i + j) mod 4 = 3 \<Longrightarrow> embed i ds bits ! j = ds ! j"
proof (induction i ds bits arbitrary: j rule: embed.induct)
  case (3 i d ds b bits)
  show ?case
  proof (cases j)
    case 0
    with "3.prems" have "(i + 1) mod 4 = 0" by presburger
    then show ?thesis using 0 by simp
  next
    case (Suc k)
    with "3.prems" have "k < length ds" "(i + 1 + k) mod 4 = 3" by simp_all
    then show ?thesis using Suc "3.IH" by simp
  qed
qed simp_all

text \<open>
  Claim C8: whenever \<open>encodeText\<close> returns a buffer, it has as many samples as the input
  and every sample at an index congruent to 3 modulo 4 equals the input's.
\<close>

theorem C8:
  assumes "encodeText r t = Inr r'" and "i < length (data r)" and "i mod 4 = 3"
  shows "length (data r') = length (data r) \<and> data r' ! i = data r ! i"
proof -
  from assms(1) have "data r' = embed 0 (data r) (bytes_to_binary (frame t))"
    by (auto simp: encodeText_frame split: if_splits)
  with assms(2,3) show ?thesis by (simp add: embed_alpha)
qed

lemma encodeText_blank_46:
  "encodeText (blank 46 1) [] =
     Inr ((blank 46 1)\<lparr>data := embed 0 (data (blank 46 1)) (bytes_to_binary (frame []))\<rparr>)"
  by (simp add: encodeText_frame length_frame_bits blank_def TextEncoder_encode_def)

theorem C8_witness:
  "\<exists>r'. encodeText (blank 46 1) [] = Inr r' \<and> data r' ! 3 = data (blank 46 1) ! 3"
  using C8 [OF encodeText_blank_46, of 3] encodeText_blank_46 by (simp add: blank_def)

section \<open>The current-format path of decodeText\<close>

lemma decode_MAGIC [simp]: "TextDecoder_decode MAGIC_HEADER = MAGIC_HEADER"
  by (simp add: MAGIC_eq TextDecoder_decode_def utf8_handler_def utf8_initial_def strip_bom_def
      utf16_units_def)

lemma map_ToUint8_id: "\<forall>x\<in>set b. x < 256 \<Longrightarrow> map ToUint8 b = b"
  by (induction b) (auto simp: ToUint8_def)

lemma map_parseInt2_byte_bits [simp]: "map (parseInt2 \<circ> byte_bits) b = b"
  by (induction b) auto

lemma map_ToUint8_parseInt2_byte_bits:
  "\<forall>x\<in>set b. x < 256 \<Longrightarrow> map (\<lambda>c. ToUint8 (parseInt2 c)) (map byte_bits b) = b"
  by (induction b) (auto simp: ToUint8_def)

lemma length_match8_le: "length b \<le> 8 * k \<Longrightarrow> length (match8 b) \<le> k"
proof (induction b arbitrary: k rule: match8.induct)
  case (1 b)
  show ?case
  proof (cases "b = []")
    case False
    with "1.prems" obtain j where k: "k = Suc j" by (cases k) auto
    with "1.prems" have "length (drop 8 b) \<le> 8 * j" by simp
    with 1 False have "length (match8 (drop 8 b)) \<le> j" by blast
    with False k show ?thesis by (subst match8.simps) simp
  qed simp
qed

text \<open>What the current-format path computes, also when the raster ends early: the payload
  is read from the groups of the at most \<open>8 * L\<close> bits that follow the header.\<close>

lemma decodeText_header:
  assumes stream: "rgb_bits 0 (data r) = bytes_to_binary (MAGIC_HEADER @ setUint32 L) @ rest"
    and cap: "L \<le> length (data r) * 3 div 32"
    and lim: "L \<le> 10000000"
  shows "decodeText r = Inr (strip_delimiter (TextDecoder_decode
           (map (\<lambda>c. ToUint8 (parseInt2 c)) (match8 (take (8 * L) rest)))))"
proof -
  define H where "H = MAGIC_HEADER @ setUint32 L"
  have H: "\<forall>x\<in>set H. x < 256" "length H = 10"
    using setUint32_bound by (auto simp: H_def MAGIC_eq)
  from H have ne: "H \<noteq> []" by auto
  have lb: "length (bytes_to_binary H) = 80" using H by (simp add: length_bytes_to_binary)
  have s: "rgb_bits 0 (data r) = bytes_to_binary H @ rest"
    using stream by (simp add: H_def)
  have e1: "extract_bits 80 0 (data r) [] = bytes_to_binary H"
    by (simp add: extract_bits_rgb s lb)
  have m1: "match8 (bytes_to_binary H) = map byte_bits H"
    using match8_bytes [of H "[]"] H by simp
  have e2: "extract_bits (80 + L * 8) 0 (data r) [] = bytes_to_binary H @ take (8 * L) rest"
    by (simp add: extract_bits_rgb s lb mult.commute)
  have m2: "match8 (bytes_to_binary H @ take (8 * L) rest)
              = map byte_bits H @ match8 (take (8 * L) rest)"
    using match8_bytes [of H] H by simp
  have sl1: "slice H 0 6 = MAGIC_HEADER" by (simp add: slice_def H_def)
  have sl2: "slice H 6 10 = setUint32 L" by (simp add: slice_def H_def)
  have "length (match8 (take (8 * L) rest)) \<le> L" by (rule length_match8_le) simp
  then have sl3: "slice (map byte_bits H @ match8 (take (8 * L) rest)) 10 (10 + L)
               = match8 (take (8 * L) rest)"
    using H by (simp add: slice_def)
  have L: "getUint32 (map ToUint8 (setUint32 L)) = L"
    using lim by (simp add: getUint32_setUint32)
  have mg: "map ToUint8 MAGIC_HEADER = MAGIC_HEADER"
    by (rule map_ToUint8_id) (simp add: MAGIC_eq)
  show ?thesis
    using H cap lim ne
    by (simp add: decodeText_def Let_def e1 m1 e2 m2 sl1 sl2 sl3 L mg strip_delimiter_def)
qed

lemma decodeText_current:
  assumes stream: "rgb_bits 0 (data r) = bytes_to_binary (MAGIC_HEADER @ setUint32 L @ payload) @ rest"
    and len: "length payload = L"
    and pay: "\<forall>x\<in>set payload. x < 256"
    and cap: "L \<le> length (data r) * 3 div 32"
    and lim: "L \<le> 10000000"
  shows "decodeText r = Inr (strip_delimiter (TextDecoder_decode payload))"
proof -
  have s: "rgb_bits 0 (data r) = bytes_to_binary (MAGIC_HEADER @ setUint32 L)
             @ (bytes_to_binary payload @ rest)"
    using stream by simp
  have "take (8 * L) (bytes_to_binary payload @ rest) = bytes_to_binary (take L payload)"
    using pay len by (intro take_bytes_to_binary) auto
  then have t: "take (8 * L) (bytes_to_binary payload @ rest) = bytes_to_binary payload"
    using len by simp
  have "match8 (bytes_to_binary payload) = map byte_bits payload"
    using match8_bytes [of payload "[]"] pay by simp
  then have "map (\<lambda>c. ToUint8 (parseInt2 c)) (match8 (bytes_to_binary payload)) = payload"
    using pay by (simp only: map_ToUint8_parseInt2_byte_bits)
  then show ?thesis
    unfolding decodeText_header [OF s cap lim] t by simp
qed

lemma rgb_bits_carrier:
  assumes "length bits \<le> 3 * (w * h)"
  shows "rgb_bits 0 (data (carrier w h bits)) = bits @ replicate (3 * (w * h) - length bits) False"
proof -
  let ?z = "replicate (4 * (w * h)) (0 :: 8 word)"
  have l: "length (rgb_bits 0 ?z) = 3 * (w * h)" by (rule length_rgb_bits) simp_all
  then have z: "rgb_bits 0 ?z = replicate (3 * (w * h)) False" using rgb_bits_zero [of 0 "4 * (w * h)"] by simp
  have "rgb_bits 0 (embed 0 ?z bits) = bits @ drop (length bits) (rgb_bits 0 ?z)"
    using assms l by (intro rgb_bits_embed) simp
  then show ?thesis by (simp add: carrier_def z mult.assoc)
qed

lemma endsWith_slice_end: "endsWith m d \<Longrightarrow> slice_end m (length d) @ d = m"
  by (auto simp: endsWith_def slice_end_def) (metis append_take_drop_id)

lemma setUint32_small: "n < 256 \<Longrightarrow> setUint32 n = [0, 0, 0, n]"
  by (simp add: setUint32_def Let_def)

text \<open>
  Claim C9: when the bit stream of the raster holds the magic token, a declared length \<open>L\<close>
  within both limits and \<open>L\<close> payload bytes, \<open>decodeText\<close> returns the decoded payload
  unchanged if it does not end with the delimiter, and the payload without one trailing
  delimiter if it does.
\<close>

theorem C9:
  assumes "rgb_bits 0 (data r) = bytes_to_binary (MAGIC_HEADER @ setUint32 L @ payload) @ rest"
    and "length payload = L"
    and "\<forall>x\<in>set payload. x < 256"
    and "L \<le> length (data r) * 3 div 32"
    and "L \<le> 10000000"
  shows "(\<not> endsWith (TextDecoder_decode payload) DELIMITER \<longrightarrow>
            decodeText r = Inr (TextDecoder_decode payload)) \<and>
         (endsWith (TextDecoder_decode payload) DELIMITER \<longrightarrow>
            (\<exists>m. decodeText r = Inr m \<and> m @ DELIMITER = TextDecoder_decode payload))"
  unfolding decodeText_current [OF assms]
  by (auto simp: strip_delimiter_def dest: endsWith_slice_end)

lemma decode_A: "TextDecoder_decode [65] = [65]"
  by (simp add: TextDecoder_decode_def utf8_handler_def utf8_initial_def strip_bom_def
      utf16_units_def)

lemma decode_A_DELIMITER: "TextDecoder_decode (65 # DELIMITER) = 65 # DELIMITER"
  by (simp add: DELIMITER_eq TextDecoder_decode_def utf8_handler_def utf8_initial_def
      strip_bom_def utf16_units_def)

lemma length_data_carrier [simp]: "length (data (carrier w h bits)) = 4 * w * h"
  by (simp add: carrier_def)

theorem C9_witness:
  "decodeText (carrier 30 1 (bytes_to_binary (MAGIC_HEADER @ setUint32 1 @ [65]))) = Inr [65] \<and>
   decodeText (carrier 48 1 (bytes_to_binary (MAGIC_HEADER @ setUint32 8 @ 65 # DELIMITER)))
     = Inr [65]"
proof -
  let ?b1 = "bytes_to_binary (MAGIC_HEADER @ setUint32 1 @ [65])"
  let ?b2 = "bytes_to_binary (MAGIC_HEADER @ setUint32 8 @ 65 # DELIMITER)"
  have l1: "length ?b1 = 88"
    by (subst length_bytes_to_binary) (simp_all add: MAGIC_eq setUint32_small)
  have l2: "length ?b2 = 144"
    by (subst length_bytes_to_binary) (simp_all add: MAGIC_eq DELIMITER_eq setUint32_small)
  have s1: "rgb_bits 0 (data (carrier 30 1 ?b1)) = ?b1 @ replicate 2 False"
    using rgb_bits_carrier [of ?b1 30 1] l1 by simp
  have s2: "rgb_bits 0 (data (carrier 48 1 ?b2)) = ?b2 @ replicate 0 False"
    using rgb_bits_carrier [of ?b2 48 1] l2 by simp
  have e1: "\<not> endsWith (TextDecoder_decode [65]) DELIMITER"
    by (simp add: endsWith_def decode_A)
  have e2: "endsWith (TextDecoder_decode (65 # DELIMITER)) DELIMITER"
    by (simp add: endsWith_def decode_A_DELIMITER)
  have "decodeText (carrier 30 1 ?b1) = Inr (TextDecoder_decode [65])"
    using C9 [OF s1] e1 by simp
  moreover have "\<exists>m. decodeText (carrier 48 1 ?b2) = Inr m \<and>
      m @ DELIMITER = TextDecoder_decode (65 # DELIMITER)"
    using C9 [OF s2] e2 by (simp add: DELIMITER_eq)
  ultimately show ?thesis by (auto simp: decode_A decode_A_DELIMITER)
qed

lemma FFFD_in_decode:
  assumes "\<not> valid_utf8 b"
  shows "0xFFFD \<in> set (TextDecoder_decode b)"
proof -
  let ?cs = "map (\<lambda>r. case r of None \<Rightarrow> 0xFFFD | Some c \<Rightarrow> c) (utf8_run utf8_initial b)"
  from assms have "(0xFFFD :: nat) \<in> set ?cs"
    by (force simp: valid_utf8_def)
  then have "(0xFFFD :: nat) \<in> set (strip_bom ?cs)"
    by (cases ?cs) (auto simp: strip_bom_def)
  moreover have "utf16_units 0xFFFD = [0xFFFD]" by (simp add: utf16_units_def)
  ultimately show ?thesis
    unfolding TextDecoder_decode_def by (auto intro!: bexI [of _ "0xFFFD"])
qed

text \<open>
  Claim C2, as the code has it: the decoder of the current-format path is not \<open>fatal\<close>, so
  payload bytes that are not valid UTF-8 are no error. \<open>decodeText\<close> returns the decoded
  string, delimiter stripped, and the string holds U+FFFD for the invalid bytes.
\<close>

theorem C2_amended:
  assumes "rgb_bits 0 (data r) = bytes_to_binary (MAGIC_HEADER @ setUint32 L @ payload) @ rest"
    and "length payload = L"
    and "\<forall>x\<in>set payload. x < 256"
    and "L \<le> length (data r) * 3 div 32"
    and "L \<le> 10000000"
    and "\<not> valid_utf8 payload"
  shows "decodeText r = Inr (strip_delimiter (TextDecoder_decode payload)) \<and>
         0xFFFD \<in> set (TextDecoder_decode payload)"
  using decodeText_current [OF assms(1-5)] FFFD_in_decode [OF assms(6)] by simp

lemma invalid_FF: "\<not> valid_utf8 [255]"
  by (simp add: valid_utf8_def utf8_handler_def utf8_initial_def)

lemma decode_FF: "TextDecoder_decode [255] = [0xFFFD]"
  by (simp add: TextDecoder_decode_def utf8_handler_def utf8_initial_def strip_bom_def
      utf16_units_def)

lemma stream_FF:
  "rgb_bits 0 (data (carrier 30 1 (bytes_to_binary (MAGIC_HEADER @ setUint32 1 @ [255]))))
     = bytes_to_binary (MAGIC_HEADER @ setUint32 1 @ [255]) @ replicate 2 False"
proof -
  let ?b = "bytes_to_binary (MAGIC_HEADER @ setUint32 1 @ [255])"
  have "length ?b = 88"
    by (subst length_bytes_to_binary) (simp_all add: MAGIC_eq setUint32_small)
  then show ?thesis using rgb_bits_carrier [of ?b 30 1] by simp
qed

text \<open>Claim C2 as stated fails: the payload byte \<open>0xFF\<close> is not valid UTF-8, and
  \<open>decodeText\<close> returns the string U+FFFD.\<close>

theorem C2_counterexample:
  "\<not> valid_utf8 [255] \<and>
   decodeText (carrier 30 1 (bytes_to_binary (MAGIC_HEADER @ [0, 0, 0, 1] @ [255]))) = Inr [0xFFFD]"
proof -
  have "\<not> endsWith [0xFFFD] DELIMITER" by (simp add: endsWith_def)
  then show ?thesis
    using decodeText_current [OF stream_FF]
    by (simp add: invalid_FF decode_FF strip_delimiter_def setUint32_small)
qed

theorem C2_witness:
  "decodeText (carrier 30 1 (bytes_to_binary (MAGIC_HEADER @ setUint32 1 @ [255])))
     = Inr (strip_delimiter (TextDecoder_decode [255])) \<and>
   0xFFFD \<in> set (TextDecoder_decode [255])"
  using C2_amended [OF stream_FF _ _ _ _ invalid_FF] by simp

text \<open>
  Claim C4 fails on the code. A raster of 27 pixels has 81 usable bits; its header declares
  five payload bytes, which passes the length check (the limit is 10), and one bit follows
  the header. \<open>decodeText\<close> returns a string of one character, read from that single bit.
\<close>

theorem C4_truncated:
  "decodeText (carrier 27 1 (bytes_to_binary (MAGIC_HEADER @ [0, 0, 0, 5]) @ [True])) = Inr [1]"
proof -
  let ?b = "bytes_to_binary (MAGIC_HEADER @ setUint32 5) @ [True]"
  have "length ?b = 81"
    by (simp add: length_bytes_to_binary MAGIC_eq setUint32_small)
  then have s: "rgb_bits 0 (data (carrier 27 1 ?b)) = bytes_to_binary (MAGIC_HEADER @ setUint32 5) @ [True]"
    using rgb_bits_carrier [of ?b 27 1] by simp
  have d: "TextDecoder_decode [Suc 0] = [Suc 0]"
    by (simp add: TextDecoder_decode_def utf8_handler_def utf8_initial_def strip_bom_def
      utf16_units_def)
  have e: "\<not> endsWith [Suc 0] DELIMITER" by (simp add: endsWith_def)
  have p: "parseInt2 [True] = 1" by (simp add: parseInt2_def)
  show ?thesis
    using decodeText_header [OF s]
    by (simp add: match8_short p ToUint8_def d strip_delimiter_def e setUint32_small)
qed

section \<open>UTF-8 round trip\<close>

lemma continuation_mod: "b < 64 \<Longrightarrow> (128 + b) mod 64 = (b::nat)"
  using mod_mult_self1 [of b 2 64] by (simp add: add.commute)
lemma lead2_mod: "a < 32 \<Longrightarrow> (192 + a) mod 32 = (a::nat)"
  using mod_mult_self1 [of a 6 32] by (simp add: add.commute)
lemma lead3_mod: "a < 16 \<Longrightarrow> (224 + a) mod 16 = (a::nat)"
  using mod_mult_self1 [of a 14 16] by (simp add: add.commute)
lemma lead4_mod: "a < 8 \<Longrightarrow> (240 + a) mod 8 = (a::nat)"
  using mod_mult_self1 [of a 30 8] by (simp add: add.commute)

lemma run_one_byte:
  "b < 128 \<Longrightarrow> utf8_run utf8_initial (b # rest) = Some b # utf8_run utf8_initial rest"
  by (simp add: utf8_handler_def utf8_initial_def)

lemma run_two_bytes:
  assumes "2 \<le> a" "a < 32" "b < 64"
  shows "utf8_run utf8_initial ((192 + a) # (128 + b) # rest)
           = Some (a * 64 + b) # utf8_run utf8_initial rest"
  using assms by (simp add: utf8_handler_def utf8_initial_def Let_def lead2_mod continuation_mod)

lemma run_three_bytes:
  assumes "a < 16" "b < 64" "d < 64" "a = 0 \<longrightarrow> 32 \<le> b" "a = 13 \<longrightarrow> b < 32"
  shows "utf8_run utf8_initial ((224 + a) # (128 + b) # (128 + d) # rest)
           = Some ((a * 64 + b) * 64 + d) # utf8_run utf8_initial rest"
  using assms by (auto simp add: utf8_handler_def utf8_initial_def Let_def continuation_mod lead3_mod)

lemma run_four_bytes:
  assumes "a < 5" "b < 64" "d < 64" "e < 64" "a = 0 \<longrightarrow> 16 \<le> b" "a = 4 \<longrightarrow> b < 16"
  shows "utf8_run utf8_initial ((240 + a) # (128 + b) # (128 + d) # (128 + e) # rest)
           = Some (((a * 64 + b) * 64 + d) * 64 + e) # utf8_run utf8_initial rest"
  using assms by (auto simp add: utf8_handler_def utf8_initial_def Let_def continuation_mod lead4_mod)

lemma run_utf8_bytes:
  assumes "scalar c"
  shows "utf8_run utf8_initial (utf8_bytes c @ rest) = Some c # utf8_run utf8_initial rest"
proof -
  define q1 where "q1 = c div 64"
  define q2 where "q2 = q1 div 64"
  define a where "a = q2 div 64"
  define e where "e = c mod 64"
  define d where "d = q1 mod 64"
  define b where "b = q2 mod 64"
  have c: "c = q1 * 64 + e" "q1 = q2 * 64 + d" "q2 = a * 64 + b" "e < 64" "d < 64" "b < 64"
    by (simp_all add: q1_def q2_def a_def e_def d_def b_def)
  have d4096: "c div 4096 = q2" using div_mult2_eq [of c 64 64] by (simp add: q1_def q2_def)
  have d262144: "c div 262144 = a" using div_mult2_eq [of c 4096 64] d4096 by (simp add: a_def)
  have c': "q1 * 64 + e = c" using c(1) by simp
  consider "c < 128" | "128 \<le> c" "c < 2048" | "2048 \<le> c" "c < 65536" | "65536 \<le> c"
    by linarith
  then show ?thesis
  proof cases
    case 1
    then show ?thesis by (simp add: utf8_bytes_def run_one_byte del: utf8_run.simps)
  next
    case 2
    with c have "2 \<le> q1" "q1 < 32" by linarith+
    then have "utf8_run utf8_initial ((192 + q1) # (128 + e) # rest)
        = Some (q1 * 64 + e) # utf8_run utf8_initial rest"
      using c by (intro run_two_bytes)
    moreover have "utf8_bytes c = [192 + q1, 128 + e]"
      using 2 by (simp add: utf8_bytes_def q1_def e_def)
    ultimately show ?thesis by (simp add: c' del: utf8_run.simps)
  next
    case 3
    with c have q: "q2 < 16" "q2 = 0 \<longrightarrow> 32 \<le> d" by linarith+
    from assms 3 c have q': "q2 = 13 \<longrightarrow> d < 32" by (simp add: scalar_def) linarith
    have "utf8_run utf8_initial ((224 + q2) # (128 + d) # (128 + e) # rest)
        = Some ((q2 * 64 + d) * 64 + e) # utf8_run utf8_initial rest"
      using c q q' by (intro run_three_bytes)
    moreover have "utf8_bytes c = [224 + q2, 128 + d, 128 + e]"
      using 3 by (simp add: utf8_bytes_def d4096 q1_def [symmetric] d_def e_def)
    moreover have "(q2 * 64 + d) * 64 + e = c" using c by simp
    ultimately show ?thesis by (simp del: utf8_run.simps)
  next
    case 4
    from assms have "c < 1114112" by (simp add: scalar_def)
    with 4 c have q: "a < 5" "a = 0 \<longrightarrow> 16 \<le> b" "a = 4 \<longrightarrow> b < 16" by linarith+
    have "utf8_run utf8_initial ((240 + a) # (128 + b) # (128 + d) # (128 + e) # rest)
        = Some (((a * 64 + b) * 64 + d) * 64 + e) # utf8_run utf8_initial rest"
      using c q by (intro run_four_bytes)
    moreover have "utf8_bytes c = [240 + a, 128 + b, 128 + d, 128 + e]"
      using 4 by (simp add: utf8_bytes_def d4096 d262144 q1_def [symmetric] b_def d_def e_def)
    moreover have "((a * 64 + b) * 64 + d) * 64 + e = c" using c by simp
    ultimately show ?thesis by (simp del: utf8_run.simps)
  qed
qed

lemma run_concat:
  "\<forall>c\<in>set cs. scalar c \<Longrightarrow>
   utf8_run utf8_initial (concat (map utf8_bytes cs) @ rest) = map Some cs @ utf8_run utf8_initial rest"
  by (induction cs) (simp_all add: run_utf8_bytes del: utf8_run.simps)

lemma well_formed_units: "well_formed s \<Longrightarrow> \<forall>u\<in>set s. u < 65536"
  by (induction s rule: well_formed.induct)
     (auto simp: is_lead_def is_trail_def split: if_splits)

lemma scalar_pair:
  assumes "is_lead u" "is_trail v"
  shows "scalar (65536 + (u - 55296) * 1024 + (v - 56320))"
proof -
  define x where "x = u - 55296"
  define y where "y = v - 56320"
  have "x \<le> 1023" "y \<le> 1023" using assms by (auto simp: x_def y_def is_lead_def is_trail_def)
  then have "x * 1024 \<le> 1023 * 1024" "y \<le> 1023" by simp_all
  then have "65536 + x * 1024 + y < 1114112" "65536 \<le> 65536 + x * 1024 + y" by linarith+
  then show ?thesis unfolding scalar_def x_def y_def by linarith
qed

lemma scalar_unit: "u < 65536 \<Longrightarrow> \<not> is_lead u \<Longrightarrow> \<not> is_trail u \<Longrightarrow> scalar u"
  unfolding scalar_def is_lead_def is_trail_def by linarith

lemma scalar_FFFD: "scalar 65533"
  by (simp add: scalar_def)

lemma scalar_values_scalar: "\<forall>u\<in>set s. u < 65536 \<Longrightarrow> \<forall>c\<in>set (scalar_values s). scalar c"
proof (induction s rule: scalar_values.induct)
  case (2 u)
  then show ?case by (simp add: scalar_FFFD scalar_unit)
next
  case (3 u v s)
  then show ?case by (simp add: scalar_FFFD scalar_unit scalar_pair)
qed simp

lemma utf16_pair:
  assumes "is_lead u" "is_trail v"
  shows "utf16_units (65536 + (u - 55296) * 1024 + (v - 56320)) = [u, v]"
proof -
  define x where "x = u - 55296"
  define y where "y = v - 56320"
  have xy: "u = 55296 + x" "v = 56320 + y" "y < 1024"
    using assms by (auto simp: x_def y_def is_lead_def is_trail_def)
  have "(x * 1024 + y) div 1024 = x" "(x * 1024 + y) mod 1024 = y" using xy by simp_all
  then show ?thesis by (simp add: utf16_units_def xy)
qed

lemma utf16_scalar_values: "well_formed s \<Longrightarrow> concat (map utf16_units (scalar_values s)) = s"
proof (induction s rule: scalar_values.induct)
  case (3 u v s)
  show ?case
  proof (cases "is_lead u")
    case True
    with "3.prems" have "is_trail v" "well_formed s" by simp_all
    with True "3.IH" show ?thesis by (simp add: utf16_pair del: utf16_units_def)
  next
    case False
    with "3.prems" have "u < 65536" "\<not> is_trail u" "well_formed (v # s)" by simp_all
    with False "3.IH" show ?thesis by (simp add: utf16_units_def)
  qed
qed (simp_all add: utf16_units_def)

lemma strip_bom_scalar_values:
  "s = [] \<or> hd s \<noteq> 65279 \<Longrightarrow> strip_bom (scalar_values s) = scalar_values s"
  by (induction s rule: scalar_values.induct) (auto simp: strip_bom_def is_lead_def is_trail_def)

lemma decode_encode:
  assumes "well_formed s" and "s = [] \<or> hd s \<noteq> 65279"
  shows "TextDecoder_decode (TextEncoder_encode s) = s"
proof -
  from assms(1) have "\<forall>c\<in>set (scalar_values s). scalar c"
    by (intro scalar_values_scalar well_formed_units)
  then have "utf8_run utf8_initial (TextEncoder_encode s) = map Some (scalar_values s)"
    using run_concat [of "scalar_values s" "[]"] by (simp add: TextEncoder_encode_def utf8_initial_def)
  then have "map (\<lambda>r. case r of None \<Rightarrow> 65533 | Some c \<Rightarrow> c) (utf8_run utf8_initial (TextEncoder_encode s))
      = scalar_values s"
    by (simp add: comp_def)
  then show ?thesis
    using assms by (simp add: TextDecoder_decode_def strip_bom_scalar_values utf16_scalar_values)
qed

lemma well_formed_append: "well_formed a \<Longrightarrow> well_formed b \<Longrightarrow> well_formed (a @ b)"
proof (induction a rule: well_formed.induct)
  case (2 u)
  then show ?case by (cases b) auto
qed (auto split: if_splits)

lemma well_formed_DELIMITER: "well_formed DELIMITER"
  by (simp add: DELIMITER_eq is_lead_def is_trail_def)

section \<open>Round trip through encodeText and decodeText\<close>

lemma strip_delimiter_append [simp]: "strip_delimiter (t @ DELIMITER) = t"
  by (simp add: strip_delimiter_def endsWith_def slice_end_def)

lemma decode_encode_DELIMITER:
  assumes "well_formed t" and "t = [] \<or> hd t \<noteq> 65279"
  shows "TextDecoder_decode (TextEncoder_encode t @ DELIMITER) = t @ DELIMITER"
proof -
  have "well_formed (t @ DELIMITER)"
    using assms(1) by (intro well_formed_append well_formed_DELIMITER)
  moreover have "t @ DELIMITER = [] \<or> hd (t @ DELIMITER) \<noteq> 65279"
    using assms(2) by (cases t) (simp_all add: DELIMITER_eq)
  ultimately have "TextDecoder_decode (TextEncoder_encode (t @ DELIMITER)) = t @ DELIMITER"
    by (rule decode_encode)
  then show ?thesis by (simp add: encode_append_DELIMITER)
qed

lemma capacity_bits:
  assumes "int n \<le> calculateCapacity (int w) (int h)"
  shows "8 * (17 + n) \<le> 3 * (w * h)"
proof -
  define x where "x = int w * int h * 3 - 136"
  have "8 * (x div 8) \<le> x"
    using div_mult_mod_eq [of x 8] pos_mod_sign [of 8 x] by linarith
  moreover have "int n \<le> x div 8" using assms by (simp add: cap_eq x_def)
  ultimately have "8 * int n \<le> x" by linarith
  then have "int (8 * (17 + n)) \<le> int (3 * (w * h))" by (simp add: x_def)
  then show ?thesis by (simp only: of_nat_le_iff)
qed

text \<open>
  Claim C1, as the code has it. For a raster with four samples per pixel, a well-formed
  text that does not start with U+FEFF, of UTF-8 length \<open>n\<close> at most the capacity and with
  \<open>n + 7\<close> at most 10000000, \<open>encodeText\<close> returns a buffer and \<open>decodeText\<close> of that buffer
  returns the text.
\<close>

theorem C1_amended:
  assumes "length (data r) = 4 * (width r * height r)"
    and "well_formed t"
    and "t = [] \<or> hd t \<noteq> 0xFEFF"
    and "int (length (TextEncoder_encode t)) \<le> calculateCapacity (int (width r)) (int (height r))"
    and "length (TextEncoder_encode t) + 7 \<le> 10000000"
  shows "\<exists>r'. encodeText r t = Inr r' \<and> decodeText r' = Inr t"
proof -
  define n where "n = length (TextEncoder_encode t)"
  define bits where "bits = bytes_to_binary (frame t)"
  define r' where "r' = r\<lparr>data := embed 0 (data r) bits\<rparr>"
  have units: "\<forall>u\<in>set t. u < 65536" using assms(2) by (rule well_formed_units)
  have fits: "8 * (17 + n) \<le> 3 * (width r * height r)"
    using assms(4) unfolding n_def by (rule capacity_bits)
  have lb: "length bits = 8 * (17 + n)"
    using units by (simp add: bits_def n_def length_frame_bits)
  have enc: "encodeText r t = Inr r'"
    using fits lb by (simp add: encodeText_frame r'_def bits_def mult.commute mult.assoc)
  have ls: "length (rgb_bits 0 (data r)) = 3 * (width r * height r)"
    using assms(1) by (intro length_rgb_bits) simp_all
  have "rgb_bits 0 (embed 0 (data r) bits) = bits @ drop (length bits) (rgb_bits 0 (data r))"
    using fits lb ls by (intro rgb_bits_embed) simp
  then have stream: "rgb_bits 0 (data r') =
      bytes_to_binary (MAGIC_HEADER @ setUint32 (n + 7) @ (TextEncoder_encode t @ DELIMITER))
        @ drop (length bits) (rgb_bits 0 (data r))"
    by (simp add: r'_def bits_def frame_def n_def)
  have pay: "\<forall>x\<in>set (TextEncoder_encode t @ DELIMITER). x < 256"
    using encode_bound [OF units] by (auto simp: DELIMITER_eq)
  define k where "k = width r * height r"
  have "8 * (17 + n) \<le> 3 * k" using fits by (simp only: k_def)
  then have "(n + 7) * 32 \<le> 12 * k" by (simp add: algebra_simps)
  then have "n + 7 \<le> 12 * k div 32" by (simp only: less_eq_div_iff_mult_less_eq)
  then have cap: "n + 7 \<le> length (data r') * 3 div 32"
    using assms(1) by (simp add: r'_def k_def)
  have "decodeText r' = Inr (strip_delimiter (TextDecoder_decode (TextEncoder_encode t @ DELIMITER)))"
    using stream _ pay cap
  proof (rule decodeText_current)
    show "length (TextEncoder_encode t @ DELIMITER) = n + 7" by (simp add: n_def)
    show "n + 7 \<le> 10000000" using assms(5) by (simp add: n_def)
  qed
  then have "decodeText r' = Inr t"
    using assms(2,3) by (simp add: decode_encode_DELIMITER)
  with enc show ?thesis by blast
qed

lemma encode_euro: "TextEncoder_encode [104, 8364] = [104, 226, 130, 172]"
  by (simp add: TextEncoder_encode_def utf8_bytes_def is_lead_def is_trail_def)

theorem C1_witness:
  "\<exists>r'. encodeText (blank 10 10) [104, 0x20AC] = Inr r' \<and> decodeText r' = Inr [104, 0x20AC]"
proof -
  have "well_formed [104, 0x20AC]" by (simp add: is_lead_def is_trail_def)
  then show ?thesis
    by (rule C1_amended [rotated]) (simp_all add: encode_euro cap_eq blank_def)
qed

lemma encode_BOM: "TextEncoder_encode [65279] = [239, 187, 191]"
  by (simp add: TextEncoder_encode_def utf8_bytes_def is_lead_def is_trail_def)

lemma decode_BOM_DELIMITER: "TextDecoder_decode ([239, 187, 191] @ DELIMITER) = DELIMITER"
  by (simp add: DELIMITER_eq TextDecoder_decode_def utf8_handler_def utf8_initial_def
      strip_bom_def utf16_units_def)

lemma strip_delimiter_DELIMITER: "strip_delimiter DELIMITER = []"
  using strip_delimiter_append [of "[]"] by simp

text \<open>A text that starts with U+FEFF loses it: the decoder drops a leading byte order
  mark.\<close>

theorem roundtrip_BOM_lost:
  "int (length (TextEncoder_encode [0xFEFF])) \<le> calculateCapacity 10 10 \<and>
   encodeText (blank 10 10) [0xFEFF] = Inr (carrier 10 10 (bytes_to_binary (frame [0xFEFF]))) \<and>
   decodeText (carrier 10 10 (bytes_to_binary (frame [0xFEFF]))) = Inr []"
proof -
  let ?bits = "bytes_to_binary (frame [0xFEFF])"
  have l: "length ?bits = 160"
    by (subst length_frame_bits) (simp_all add: encode_BOM)
  have e: "encodeText (blank 10 10) [0xFEFF] = Inr (carrier 10 10 ?bits)"
    by (simp add: encodeText_frame l blank_def carrier_def)
  have "rgb_bits 0 (data (carrier 10 10 ?bits)) = ?bits @ replicate 140 False"
    using rgb_bits_carrier [of ?bits 10 10] l by simp
  then have s: "rgb_bits 0 (data (carrier 10 10 ?bits)) =
      bytes_to_binary (MAGIC_HEADER @ setUint32 10 @ ([239, 187, 191] @ DELIMITER))
        @ replicate 140 False"
    by (simp add: frame_def encode_BOM)
  have "decodeText (carrier 10 10 ?bits)
      = Inr (strip_delimiter (TextDecoder_decode ([239, 187, 191] @ DELIMITER)))"
    using s by (rule decodeText_current) (simp_all add: DELIMITER_eq)
  then have "decodeText (carrier 10 10 ?bits) = Inr []"
    by (simp only: decode_BOM_DELIMITER strip_delimiter_DELIMITER)
  with e show ?thesis by (simp add: encode_BOM cap_eq)
qed

text \<open>The length check of \<open>decodeText\<close> rejects every declared length above 10000000.\<close>

lemma decodeText_invalid:
  assumes stream: "rgb_bits 0 (data r) = bytes_to_binary (MAGIC_HEADER @ setUint32 L) @ rest"
    and L: "L < 2 ^ 32"
    and big: "length (data r) * 3 div 32 < L \<or> 10000000 < L"
  shows "decodeText r = Inl InvalidLength"
proof -
  define H where "H = MAGIC_HEADER @ setUint32 L"
  have H: "\<forall>x\<in>set H. x < 256" "length H = 10"
    using setUint32_bound by (auto simp: H_def MAGIC_eq)
  from H have ne: "H \<noteq> []" by auto
  have lb: "length (bytes_to_binary H) = 80" using H by (simp add: length_bytes_to_binary)
  have s: "rgb_bits 0 (data r) = bytes_to_binary H @ rest"
    using stream by (simp add: H_def)
  have e1: "extract_bits 80 0 (data r) [] = bytes_to_binary H"
    by (simp add: extract_bits_rgb s lb)
  have m1: "match8 (bytes_to_binary H) = map byte_bits H"
    using match8_bytes [of H "[]"] H by simp
  have sl1: "slice H 0 6 = MAGIC_HEADER" by (simp add: slice_def H_def)
  have sl2: "slice H 6 10 = setUint32 L" by (simp add: slice_def H_def)
  have L': "getUint32 (map ToUint8 (setUint32 L)) = L"
    using L by (simp add: getUint32_setUint32)
  have mg: "map ToUint8 MAGIC_HEADER = MAGIC_HEADER"
    by (rule map_ToUint8_id) (simp add: MAGIC_eq)
  show ?thesis
    using H big ne
    by (auto simp add: decodeText_def Let_def e1 m1 sl1 sl2 L' mg)
qed

text \<open>
  Claim C1 as stated fails: a text of 9999994 letters fits the capacity of a 6000 by 5000
  raster and is encoded, but its declared length is 10000001 and \<open>decodeText\<close> rejects it.
\<close>

theorem C1_counterexample:
  "int (length (TextEncoder_encode (replicate 9999994 97))) \<le> calculateCapacity 6000 5000 \<and>
   encodeText (blank 6000 5000) (replicate 9999994 97)
     = Inr (carrier 6000 5000 (bytes_to_binary (frame (replicate 9999994 97)))) \<and>
   decodeText (carrier 6000 5000 (bytes_to_binary (frame (replicate 9999994 97))))
     = Inl InvalidLength"
proof -
  let ?t = "replicate 9999994 (97 :: nat)"
  let ?bits = "bytes_to_binary (frame ?t)"
  have enc: "TextEncoder_encode ?t = ?t" by (rule encode_ascii) simp
  have l: "length ?bits = 80000088"
    by (subst length_frame_bits) (simp_all add: enc)
  have e: "encodeText (blank 6000 5000) ?t = Inr (carrier 6000 5000 ?bits)"
    by (simp add: encodeText_frame l blank_def carrier_def)
  have "rgb_bits 0 (data (carrier 6000 5000 ?bits)) = ?bits @ replicate 9999912 False"
    using rgb_bits_carrier [of ?bits 6000 5000] l by simp
  then have s: "rgb_bits 0 (data (carrier 6000 5000 ?bits)) =
      bytes_to_binary (MAGIC_HEADER @ setUint32 10000001)
        @ (bytes_to_binary (?t @ DELIMITER) @ replicate 9999912 False)"
    by (simp add: frame_def enc)
  have "decodeText (carrier 6000 5000 ?bits) = Inl InvalidLength"
    using s by (rule decodeText_invalid) simp_all
  with e show ?thesis by (simp add: enc cap_eq)
qed

section \<open>The legacy scan\<close>

lemma legacy_append_zero: "legacy_append s 0 = s"
  by (simp add: legacy_append_def)

lemma decode_fatal_ascii: "c < 128 \<Longrightarrow> TextDecoder_decode_fatal [c] = Some [c]"
  by (simp add: TextDecoder_decode_fatal_def Let_def utf8_handler_def utf8_initial_def
      strip_bom_def utf16_units_def)

lemma decode_fatal_high: "128 \<le> c \<Longrightarrow> TextDecoder_decode_fatal [c] = None"
  by (simp add: TextDecoder_decode_fatal_def Let_def utf8_handler_def utf8_initial_def)

lemma legacy_append_byte: "0 < c \<Longrightarrow> c < 256 \<Longrightarrow> legacy_append s c = s @ [c]"
  by (cases "c < 128")
     (simp_all add: legacy_append_def ToUint8_def decode_fatal_ascii decode_fatal_high)

lemma legacy_scan_bits: "legacy_scan i ds bin s = legacy_bits (rgb_bits i ds) bin s"
  by (induction ds arbitrary: i bin s) (simp_all add: Let_def)

lemma legacy_bits_skip:
  "length bin mod 8 + length c < 8 \<Longrightarrow>
   legacy_bits (c @ rest) bin s = legacy_bits rest (bin @ c) s"
proof (induction c arbitrary: bin)
  case (Cons x c)
  from Cons.prems have m: "Suc (length bin) mod 8 = Suc (length bin mod 8)"
    by (simp add: mod_Suc)
  with Cons.prems have "length (bin @ [x]) mod 8 + length c < 8" by simp
  then have "legacy_bits (c @ rest) (bin @ [x]) s = legacy_bits rest ((bin @ [x]) @ c) s"
    by (rule Cons.IH)
  with m show ?case by (simp add: Let_def)
qed simp

lemma legacy_bits_byte:
  assumes "length bin mod 8 = 0" and "length c = 8"
  shows "legacy_bits (c @ rest) bin s =
     (let s' = legacy_append s (parseInt2 c)
      in if endsWith s' DELIMITER then Inr (slice_end s' (length DELIMITER))
         else if length s' > 1000000 then Inl NoMessageFound
         else legacy_bits rest (bin @ c) s')"
proof -
  from assms(2) obtain c7 b where c: "c = c7 @ [b]" "length c7 = 7"
    by (cases c rule: rev_cases) auto
  have "legacy_bits (c7 @ b # rest) bin s = legacy_bits (b # rest) (bin @ c7) s"
    using assms(1) c by (intro legacy_bits_skip) simp
  moreover have "(length bin + 8) mod 8 = 0" using assms(1) by simp
  ultimately show ?thesis using c by (simp add: Let_def)
qed

lemma legacy_bits_bytes:
  assumes "length bin mod 8 = 0"
    and "\<forall>c\<in>set cs. 0 < c \<and> c < 256"
    and "\<forall>k. 0 < k \<and> k \<le> length cs \<longrightarrow>
           \<not> endsWith (s @ take k cs) DELIMITER \<and> length (s @ take k cs) \<le> 1000000"
  shows "legacy_bits (bytes_to_binary cs @ rest) bin s
           = legacy_bits rest (bin @ bytes_to_binary cs) (s @ cs)"
  using assms
proof (induction cs arbitrary: bin s)
  case (Cons c cs)
  from Cons.prems(2) have c: "0 < c" "c < 256" by simp_all
  from Cons.prems(3) [rule_format, of 1]
  have 1: "\<not> endsWith (s @ [c]) DELIMITER" "length (s @ [c]) \<le> 1000000" by simp_all
  have 2: "length (bin @ byte_bits c) mod 8 = 0" using Cons.prems(1) c by simp
  have 3: "\<forall>k. 0 < k \<and> k \<le> length cs \<longrightarrow>
      \<not> endsWith ((s @ [c]) @ take k cs) DELIMITER \<and> length ((s @ [c]) @ take k cs) \<le> 1000000"
  proof (intro allI impI)
    fix k assume "0 < k \<and> k \<le> length cs"
    with Cons.prems(3) [rule_format, of "Suc k"]
    show "\<not> endsWith ((s @ [c]) @ take k cs) DELIMITER \<and> length ((s @ [c]) @ take k cs) \<le> 1000000"
      by simp
  qed
  have "legacy_bits (bytes_to_binary cs @ rest) (bin @ byte_bits c) (s @ [c])
      = legacy_bits rest ((bin @ byte_bits c) @ bytes_to_binary cs) ((s @ [c]) @ cs)"
    using 2 _ 3 by (rule Cons.IH) (use Cons.prems(2) in simp)
  moreover have "legacy_bits (byte_bits c @ (bytes_to_binary cs @ rest)) bin s
      = legacy_bits (bytes_to_binary cs @ rest) (bin @ byte_bits c) (s @ [c])"
    using 1 c by (subst legacy_bits_byte [OF Cons.prems(1)]) (simp_all add: legacy_append_byte Let_def)
  ultimately show ?case by simp
qed simp

lemma legacy_bits_found:
  assumes "length bin mod 8 = 0" and "0 < c" "c < 256" and "endsWith (s @ [c]) DELIMITER"
  shows "legacy_bits (byte_bits c @ rest) bin s = Inr (slice_end (s @ [c]) (length DELIMITER))"
  using assms by (subst legacy_bits_byte [OF assms(1)]) (simp_all add: legacy_append_byte Let_def)

lemma decodeLegacyFormat_bits:
  "decodeLegacyFormat r = legacy_bits (rgb_bits 0 (data r)) [] []"
  by (simp add: decodeLegacyFormat_def legacy_scan_bits)

lemma legacy_decode:
  assumes chars: "\<forall>c\<in>set t. 0 < c \<and> c < 256"
    and first: "first_delimiter_last t"
    and len: "length t + 6 \<le> 1000000"
  shows "legacy_bits (bytes_to_binary (t @ DELIMITER) @ rest) [] [] = Inr t"
proof -
  define cs where "cs = t @ take 6 DELIMITER"
  have full: "t @ DELIMITER = cs @ [36]" by (simp add: cs_def DELIMITER_eq)
  have cs: "\<forall>c\<in>set cs. 0 < c \<and> c < 256" using chars by (auto simp: cs_def DELIMITER_eq)
  have early: "\<forall>k. 0 < k \<and> k \<le> length cs \<longrightarrow>
      \<not> endsWith ([] @ take k cs) DELIMITER \<and> length ([] @ take k cs) \<le> 1000000"
  proof (intro allI impI)
    fix k assume k: "0 < k \<and> k \<le> length cs"
    then have "k < length t + length DELIMITER" by (simp add: cs_def)
    with first have "\<not> endsWith (take k (t @ DELIMITER)) DELIMITER"
      by (simp add: first_delimiter_last_def list_all_iff)
    moreover have "take k (t @ DELIMITER) = take k cs" using k by (simp add: full)
    moreover have "length (take k cs) \<le> 1000000" using len by (simp add: cs_def)
    ultimately show "\<not> endsWith ([] @ take k cs) DELIMITER \<and> length ([] @ take k cs) \<le> 1000000"
      by simp
  qed
  have "legacy_bits (bytes_to_binary cs @ (byte_bits 36 @ rest)) [] []
      = legacy_bits (byte_bits 36 @ rest) ([] @ bytes_to_binary cs) ([] @ cs)"
    using _ cs early by (rule legacy_bits_bytes) simp
  then have "legacy_bits (bytes_to_binary cs @ (byte_bits 36 @ rest)) [] []
      = legacy_bits (byte_bits 36 @ rest) (bytes_to_binary cs) cs"
    by simp
  also have "\<dots> = Inr (slice_end (cs @ [36]) (length DELIMITER))"
  proof (rule legacy_bits_found)
    show "length (bytes_to_binary cs) mod 8 = 0"
      using cs by (simp add: length_bytes_to_binary)
    show "endsWith (cs @ [36]) DELIMITER"
      by (simp add: full [symmetric] endsWith_def)
  qed simp_all
  also have "\<dots> = Inr t" by (simp add: full [symmetric] slice_end_def)
  finally show ?thesis by (simp add: full)
qed

section \<open>Which rasters reach the legacy scan\<close>

lemma length_match8_gt: "8 * k < length b \<Longrightarrow> k < length (match8 b)"
proof (induction b arbitrary: k rule: match8.induct)
  case (1 b)
  from "1.prems" have ne: "b \<noteq> []" by auto
  show ?case
  proof (cases k)
    case 0
    with ne show ?thesis by (subst match8.simps) simp
  next
    case (Suc j)
    with "1.prems" have "8 * j < length (drop 8 b)" by simp
    with 1 ne have "j < length (match8 (drop 8 b))" by blast
    with ne Suc show ?thesis by (subst match8.simps) simp
  qed
qed

lemma decodeText_short:
  assumes "length (rgb_bits 0 (data r)) \<le> 72"
  shows "decodeText r = Inl NoMessageFound"
proof -
  have "length (match8 (take 80 (rgb_bits 0 (data r)))) \<le> 9"
    using assms by (intro length_match8_le) simp
  then show ?thesis
    by (simp add: decodeText_def Let_def extract_bits_rgb)
qed

lemma decodeText_fallback:
  assumes stream: "rgb_bits 0 (data r) = bytes_to_binary six @ rest"
    and six: "length six = 6" "\<forall>x\<in>set six. x < 256"
    and rest: "25 \<le> length rest"
    and magic: "TextDecoder_decode six \<noteq> MAGIC_HEADER"
  shows "decodeText r = decodeLegacyFormat r"
proof -
  define X where "X = match8 (take 32 rest)"
  have lb: "length (bytes_to_binary six) = 48" using six by (simp add: length_bytes_to_binary)
  have e1: "extract_bits 80 0 (data r) [] = bytes_to_binary six @ take 32 rest"
    by (simp add: extract_bits_rgb stream lb)
  have m1: "match8 (bytes_to_binary six @ take 32 rest) = map byte_bits six @ X"
    using match8_bytes [of six] six by (simp add: X_def)
  have "8 * 3 < length (take 32 rest)" using rest by simp
  then have X: "3 < length X" unfolding X_def by (rule length_match8_gt)
  have ex: "map parseInt2 (take 10 (map byte_bits six @ X)) = six @ map parseInt2 (take 4 X)"
    using six by simp
  have sl: "slice (six @ map parseInt2 (take 4 X)) 0 6 = six"
    using six by (simp add: slice_def)
  have mg: "map ToUint8 six = six" using six by (intro map_ToUint8_id)
  from six have ne: "six \<noteq> []" by auto
  show ?thesis
    using magic X six ne
    by (simp add: decodeText_def Let_def e1 m1 ex sl mg)
qed

lemma length_run_valid:
  "None \<notin> set (utf8_run st bs) \<Longrightarrow> length (utf8_run st bs) \<le> length bs"
proof (induction st bs rule: utf8_run.induct)
  case (1 st)
  then show ?case by (simp split: if_splits)
next
  case (2 st b bs)
  show ?case
  proof (cases "snd (utf8_handler st b)")
    case Continue
    then have e: "utf8_run st (b # bs) = utf8_run (fst (utf8_handler st b)) bs" by simp
    with "2.prems" have "None \<notin> set (utf8_run (fst (utf8_handler st b)) bs)" by simp
    with "2.IH"(1) [OF Continue] show ?thesis unfolding e by simp
  next
    case (CodePoint c)
    then have e: "utf8_run st (b # bs) = Some c # utf8_run (fst (utf8_handler st b)) bs" by simp
    with "2.prems" have "None \<notin> set (utf8_run (fst (utf8_handler st b)) bs)" by simp
    with "2.IH"(2) [OF CodePoint] show ?thesis unfolding e by simp
  next
    case Failure
    then have "utf8_run st (b # bs) = None # utf8_run (fst (utf8_handler st b)) bs" by simp
    with "2.prems" show ?thesis by simp
  next
    case FailureRestore
    then have "None \<in> set (utf8_run st (b # bs))" by (subst utf8_run.simps) simp
    with "2.prems" show ?thesis by simp
  qed
qed

lemma handler_initial_high:
  "128 \<le> b \<Longrightarrow> snd (utf8_handler utf8_initial b) = Continue
     \<or> snd (utf8_handler utf8_initial b) = Failure"
  by (simp add: utf8_handler_def utf8_initial_def)

lemma run_ascii_exact:
  "utf8_run utf8_initial bs = map Some cs \<Longrightarrow> length cs = length bs \<Longrightarrow> bs = cs"
proof (induction bs arbitrary: cs)
  case (Cons b bs)
  show ?case
  proof (cases "b < 128")
    case True
    with Cons.prems obtain cs' where "cs = b # cs'" "utf8_run utf8_initial bs = map Some cs'"
      by (cases cs) (auto simp: run_one_byte simp del: utf8_run.simps)
    with Cons show ?thesis by simp
  next
    case False
    then consider "snd (utf8_handler utf8_initial b) = Continue"
      | "snd (utf8_handler utf8_initial b) = Failure"
      using handler_initial_high [of b] by force
    then show ?thesis
    proof cases
      case 1
      with Cons.prems(1) have r: "utf8_run (fst (utf8_handler utf8_initial b)) bs = map Some cs"
        by simp
      then have "None \<notin> set (utf8_run (fst (utf8_handler utf8_initial b)) bs)" by auto
      then have "length (utf8_run (fst (utf8_handler utf8_initial b)) bs) \<le> length bs"
        by (rule length_run_valid)
      with r Cons.prems(2) show ?thesis by simp
    next
      case 2
      with Cons.prems(1) show ?thesis by (cases cs) simp_all
    qed
  qed
qed (simp add: utf8_initial_def)

lemma utf16_units_ascii:
  "\<forall>u\<in>set (concat (map utf16_units xs)). u < 128 \<Longrightarrow> concat (map utf16_units xs) = xs"
  by (induction xs) (auto simp: utf16_units_def split: if_splits)

lemma map_Some_replace:
  "None \<notin> set xs \<Longrightarrow> xs = map Some (map (\<lambda>r. case r of None \<Rightarrow> d | Some c \<Rightarrow> c) xs)"
proof (induction xs)
  case (Cons a xs)
  then show ?case by (cases a) auto
qed simp

lemma decode_ascii_exact:
  assumes dec: "TextDecoder_decode bs = cs"
    and ascii: "\<forall>c\<in>set cs. c < 128"
    and len: "length cs = length bs"
  shows "bs = cs"
proof -
  define out where
    "out = map (\<lambda>r. case r of None \<Rightarrow> 65533 | Some c \<Rightarrow> c) (utf8_run utf8_initial bs)"
  have "concat (map utf16_units (strip_bom out)) = cs"
    using dec by (simp add: TextDecoder_decode_def out_def)
  with ascii have sb: "strip_bom out = cs" using utf16_units_ascii [of "strip_bom out"] by simp
  then have "out = cs \<or> out = 65279 # cs"
    by (cases out) (auto simp: strip_bom_def split: if_splits)
  then have "set out \<subseteq> insert 65279 (set cs)" by auto
  moreover have "65533 \<notin> insert (65279 :: nat) (set cs)" using ascii by auto
  ultimately have "65533 \<notin> set out" by blast
  then have valid: "None \<notin> set (utf8_run utf8_initial bs)"
    by (force simp: out_def)
  then have run: "utf8_run utf8_initial bs = map Some out"
    unfolding out_def by (rule map_Some_replace)
  from valid have "length (utf8_run utf8_initial bs) \<le> length bs" by (rule length_run_valid)
  then have "length out \<le> length cs" by (simp add: out_def len)
  with \<open>out = cs \<or> out = 65279 # cs\<close> have "out = cs" by auto
  with run len show ?thesis by (intro run_ascii_exact) simp_all
qed

lemma magic_exact: "length six = 6 \<Longrightarrow> six \<noteq> MAGIC_HEADER \<Longrightarrow> TextDecoder_decode six \<noteq> MAGIC_HEADER"
  using decode_ascii_exact [of six MAGIC_HEADER] by (auto simp: MAGIC_eq)

section \<open>Zero bytes in the legacy scan\<close>

lemma parseInt2_all_False: "\<forall>b\<in>set xs. \<not> b \<Longrightarrow> parseInt2 xs = 0"
  by (induction xs rule: rev_induct) (auto simp: parseInt2_snoc)

lemma legacy_bits_zero:
  "\<forall>b\<in>set bin. \<not> b \<Longrightarrow> legacy_bits (replicate m False) bin [] = Inl NoMessageFound"
proof (induction m arbitrary: bin)
  case (Suc m)
  let ?bin = "bin @ [False]"
  from Suc.prems have a: "\<forall>b\<in>set ?bin. \<not> b" by simp
  then have "\<forall>b\<in>set (drop (length ?bin - 8) ?bin). \<not> b"
    by (meson in_set_dropD)
  then have "parseInt2 (drop (length ?bin - 8) ?bin) = 0" by (rule parseInt2_all_False)
  moreover have "legacy_bits (replicate m False) ?bin [] = Inl NoMessageFound"
    using a by (rule Suc.IH)
  moreover have "\<not> endsWith [] DELIMITER" by (simp add: endsWith_def)
  ultimately show ?case by (simp add: Let_def legacy_append_zero)
qed simp

lemma legacy_append_nonzero:
  assumes "0 \<notin> set s" and "c < 256"
  shows "0 \<notin> set (legacy_append s c)"
proof (cases "c = 0")
  case True
  with assms show ?thesis by (simp add: legacy_append_zero)
next
  case False
  with assms show ?thesis by (simp add: legacy_append_byte)
qed

lemma legacy_bits_nonzero:
  "0 \<notin> set s \<Longrightarrow> legacy_bits bits bin s = Inr t \<Longrightarrow> 0 \<notin> set t"
proof (induction bits arbitrary: bin s)
  case (Cons b bits)
  let ?bin = "bin @ [b]"
  let ?c = "parseInt2 (drop (length ?bin - 8) ?bin)"
  let ?s = "legacy_append s ?c"
  show ?case
  proof (cases "length ?bin mod 8 = 0")
    case True
    have "?c < 2 ^ length (drop (length ?bin - 8) ?bin)" by (rule parseInt2_bound)
    also have "\<dots> \<le> 2 ^ 8" by (intro power_increasing) simp_all
    finally have "?c < 256" by simp
    with Cons.prems(1) have nz: "0 \<notin> set ?s" by (intro legacy_append_nonzero)
    show ?thesis
    proof (cases "endsWith ?s DELIMITER")
      case e: True
      with True Cons.prems(2) have "t = slice_end ?s (length DELIMITER)"
        by (simp add: Let_def)
      with nz show ?thesis by (auto simp: slice_end_def dest: in_set_takeD)
    next
      case e: False
      with True Cons.prems(2) have "legacy_bits bits ?bin ?s = Inr t"
        by (simp add: Let_def split: if_splits)
      with nz show ?thesis by (rule Cons.IH)
    qed
  next
    case False
    with Cons.prems(2) have "legacy_bits bits ?bin s = Inr t" by (simp add: Let_def)
    with Cons.prems(1) show ?thesis by (rule Cons.IH)
  qed
qed simp

lemma byte_bits_zero: "byte_bits 0 = replicate 8 False"
proof -
  have "replicate 8 False = False # replicate 7 False" by (simp add: eval_nat_numeral)
  then show ?thesis
    by (simp add: byte_bits_def padStart8_def toString2.simps replicate_append_same)
qed

lemma decode_zeros: "TextDecoder_decode [0, 0, 0, 0, 0, 0] \<noteq> MAGIC_HEADER"
  by (rule magic_exact) (simp_all add: MAGIC_eq)

lemma decodeText_zero:
  "decodeText \<lparr>width = w, height = h, data = replicate n 0\<rparr> = Inl NoMessageFound"
proof -
  let ?r = "\<lparr>width = w, height = h, data = replicate n 0\<rparr>"
  define m where "m = length (rgb_bits 0 (replicate n (0 :: 8 word)))"
  have stream: "rgb_bits 0 (data ?r) = replicate m False"
    using rgb_bits_zero [of 0 n] by (simp add: m_def)
  show ?thesis
  proof (cases "m \<le> 72")
    case True
    then show ?thesis by (intro decodeText_short) (simp add: m_def)
  next
    case False
    then have "replicate m False = replicate 48 False @ replicate (m - 48) False"
      by (simp add: replicate_add [symmetric])
    also have "replicate 48 False = bytes_to_binary [0, 0, 0, 0, 0, 0]"
      by (simp add: byte_bits_zero replicate_add [symmetric])
    finally have s: "rgb_bits 0 (data ?r) = bytes_to_binary [0, 0, 0, 0, 0, 0] @ replicate (m - 48) False"
      using stream by simp
    have "decodeText ?r = decodeLegacyFormat ?r"
      using s _ _ _ decode_zeros by (rule decodeText_fallback) (use False in simp_all)
    also have "\<dots> = legacy_bits (replicate m False) [] []"
      by (simp only: decodeLegacyFormat_bits stream)
    also have "\<dots> = Inl NoMessageFound" by (rule legacy_bits_zero) simp
    finally show ?thesis .
  qed
qed

lemma rgb_bits_append:
  "rgb_bits i (a @ b) = rgb_bits i a @ rgb_bits (i + length a) b"
  by (induction a arbitrary: i) simp_all

lemma legacy_scan_byte:
  assumes "rgb_bits i ds1 = byte_bits c" and "c < 256" and "length bin mod 8 = 0"
  shows "legacy_scan i (ds1 @ ds) bin s =
     (let s' = legacy_append s c
      in if endsWith s' DELIMITER then Inr (slice_end s' (length DELIMITER))
         else if length s' > 1000000 then Inl NoMessageFound
         else legacy_scan (i + length ds1) ds (bin @ byte_bits c) s')"
proof -
  have "legacy_scan i (ds1 @ ds) bin s
      = legacy_bits (byte_bits c @ rgb_bits (i + length ds1) ds) bin s"
    by (simp add: legacy_scan_bits rgb_bits_append assms(1))
  also have "\<dots> = (let s' = legacy_append s (parseInt2 (byte_bits c))
      in if endsWith s' DELIMITER then Inr (slice_end s' (length DELIMITER))
         else if length s' > 1000000 then Inl NoMessageFound
         else legacy_bits (rgb_bits (i + length ds1) ds) (bin @ byte_bits c) s')"
    using assms(3) by (rule legacy_bits_byte) (simp add: assms(2))
  finally show ?thesis by (simp add: legacy_scan_bits Let_def)
qed

lemma legacy_bits_payload:
  assumes "length bin mod 8 = 0"
    and "\<forall>c\<in>set cs. c < 256"
    and "\<forall>k. k \<le> length (filter (\<lambda>x. x \<noteq> 0) cs) \<longrightarrow>
           \<not> endsWith (s @ take k (filter (\<lambda>x. x \<noteq> 0) cs)) DELIMITER \<and>
           length (s @ take k (filter (\<lambda>x. x \<noteq> 0) cs)) \<le> 1000000"
  shows "legacy_bits (bytes_to_binary cs @ rest) bin s
           = legacy_bits rest (bin @ bytes_to_binary cs) (s @ filter (\<lambda>x. x \<noteq> 0) cs)"
  using assms
proof (induction cs arbitrary: bin s)
  case (Cons c cs)
  let ?f = "filter (\<lambda>x. x \<noteq> 0)"
  from Cons.prems(2) have c: "c < 256" by simp
  have 2: "length (bin @ byte_bits c) mod 8 = 0" using Cons.prems(1) c by simp
  show ?case
  proof (cases "c = 0")
    case True
    from Cons.prems(3) [rule_format, of 0]
    have 0: "\<not> endsWith s DELIMITER" "length s \<le> 1000000" by simp_all
    have 3: "\<forall>k. k \<le> length (?f cs) \<longrightarrow>
        \<not> endsWith (s @ take k (?f cs)) DELIMITER \<and> length (s @ take k (?f cs)) \<le> 1000000"
      using Cons.prems(3) True by simp
    have "legacy_bits (bytes_to_binary cs @ rest) (bin @ byte_bits c) s
        = legacy_bits rest ((bin @ byte_bits c) @ bytes_to_binary cs) (s @ ?f cs)"
      using 2 _ 3 by (rule Cons.IH) (use Cons.prems(2) in simp)
    moreover have "legacy_bits (byte_bits c @ (bytes_to_binary cs @ rest)) bin s
        = legacy_bits (bytes_to_binary cs @ rest) (bin @ byte_bits c) s"
      using 0 c True
      by (subst legacy_bits_byte [OF Cons.prems(1)]) (simp_all add: legacy_append_zero Let_def)
    ultimately show ?thesis using True by simp
  next
    case False
    from Cons.prems(3) [rule_format, of 1] False
    have 1: "\<not> endsWith (s @ [c]) DELIMITER" "length (s @ [c]) \<le> 1000000" by simp_all
    have 3: "\<forall>k. k \<le> length (?f cs) \<longrightarrow>
        \<not> endsWith ((s @ [c]) @ take k (?f cs)) DELIMITER \<and>
        length ((s @ [c]) @ take k (?f cs)) \<le> 1000000"
    proof (intro allI impI)
      fix k assume "k \<le> length (?f cs)"
      with Cons.prems(3) [rule_format, of "Suc k"] False
      show "\<not> endsWith ((s @ [c]) @ take k (?f cs)) DELIMITER \<and>
          length ((s @ [c]) @ take k (?f cs)) \<le> 1000000"
        by simp
    qed
    have "legacy_bits (bytes_to_binary cs @ rest) (bin @ byte_bits c) (s @ [c])
        = legacy_bits rest ((bin @ byte_bits c) @ bytes_to_binary cs) ((s @ [c]) @ ?f cs)"
      using 2 _ 3 by (rule Cons.IH) (use Cons.prems(2) in simp)
    moreover have "legacy_bits (byte_bits c @ (bytes_to_binary cs @ rest)) bin s
        = legacy_bits (bytes_to_binary cs @ rest) (bin @ byte_bits c) (s @ [c])"
      using 1 c False
      by (subst legacy_bits_byte [OF Cons.prems(1)]) (simp_all add: legacy_append_byte Let_def)
    ultimately show ?thesis using False by simp
  qed
qed simp

lemma legacy_decode_payload:
  assumes bytes: "\<forall>c\<in>set cs. c < 256"
    and first: "first_delimiter_last (filter (\<lambda>x. x \<noteq> 0) cs)"
    and len: "length (filter (\<lambda>x. x \<noteq> 0) cs) + 6 \<le> 1000000"
  shows "legacy_bits (bytes_to_binary (cs @ DELIMITER) @ rest) [] []
           = Inr (filter (\<lambda>x. x \<noteq> 0) cs)"
proof -
  let ?f = "filter (\<lambda>x. x \<noteq> 0)"
  define t where "t = ?f cs"
  define bs where "bs = cs @ take 6 DELIMITER"
  have full: "cs @ DELIMITER = bs @ [36]" by (simp add: bs_def DELIMITER_eq)
  have fbs: "?f bs = t @ take 6 DELIMITER" by (simp add: bs_def t_def DELIMITER_eq)
  have tfull: "t @ DELIMITER = ?f bs @ [36]" unfolding fbs by (simp add: DELIMITER_eq)
  have bs: "\<forall>c\<in>set bs. c < 256" using bytes by (auto simp: bs_def DELIMITER_eq)
  have early: "\<forall>k. k \<le> length (?f bs) \<longrightarrow>
      \<not> endsWith ([] @ take k (?f bs)) DELIMITER \<and> length ([] @ take k (?f bs)) \<le> 1000000"
  proof (intro allI impI)
    fix k assume k: "k \<le> length (?f bs)"
    then have "k < length t + length DELIMITER" unfolding fbs by simp
    with first have "\<not> endsWith (take k (t @ DELIMITER)) DELIMITER"
      by (simp add: first_delimiter_last_def list_all_iff t_def)
    moreover have "take k (t @ DELIMITER) = take k (?f bs)" using k by (simp add: tfull)
    moreover have "length (take k (?f bs)) \<le> 1000000"
      using len unfolding fbs t_def by simp
    ultimately show "\<not> endsWith ([] @ take k (?f bs)) DELIMITER \<and>
        length ([] @ take k (?f bs)) \<le> 1000000"
      by simp
  qed
  have "legacy_bits (bytes_to_binary bs @ (byte_bits 36 @ rest)) [] []
      = legacy_bits (byte_bits 36 @ rest) ([] @ bytes_to_binary bs) ([] @ ?f bs)"
    using _ bs early by (rule legacy_bits_payload) simp
  then have "legacy_bits (bytes_to_binary bs @ (byte_bits 36 @ rest)) [] []
      = legacy_bits (byte_bits 36 @ rest) (bytes_to_binary bs) (?f bs)"
    by simp
  also have "\<dots> = Inr (slice_end (?f bs @ [36]) (length DELIMITER))"
  proof (rule legacy_bits_found)
    show "length (bytes_to_binary bs) mod 8 = 0"
      using bs by (simp add: length_bytes_to_binary)
    show "endsWith (?f bs @ [36]) DELIMITER"
      unfolding tfull [symmetric] by (simp add: endsWith_def)
  qed simp_all
  also have "\<dots> = Inr t" unfolding tfull [symmetric] by (simp add: slice_end_def)
  finally show ?thesis by (simp add: full t_def)
qed


lemma decodeText_legacy_payload:
  assumes stream: "rgb_bits 0 (data r) = bytes_to_binary (cs @ DELIMITER) @ rest"
    and bytes: "\<forall>x\<in>set cs. x < 256"
    and magic: "take 6 (cs @ DELIMITER) \<noteq> MAGIC_HEADER"
    and rest: "17 \<le> length rest"
  shows "decodeText r = decodeLegacyFormat r"
proof -
  define six where "six = take 6 (cs @ DELIMITER)"
  define more where "more = drop 6 (cs @ DELIMITER)"
  have all: "\<forall>x\<in>set (cs @ DELIMITER). x < 256" using bytes by (auto simp: DELIMITER_eq)
  have six: "length six = 6" "\<forall>x\<in>set six. x < 256"
    using all by (auto simp: six_def dest: in_set_takeD)
  have more: "\<forall>x\<in>set more. x < 256" "length more = length cs + 1"
    using all by (auto simp: more_def dest: in_set_dropD)
  have "cs @ DELIMITER = six @ more"
    unfolding six_def more_def by (rule append_take_drop_id [symmetric])
  then have s: "rgb_bits 0 (data r) = bytes_to_binary six @ (bytes_to_binary more @ rest)"
    using stream by simp
  have m: "TextDecoder_decode six \<noteq> MAGIC_HEADER"
    using six(1) magic unfolding six_def [symmetric] by (rule magic_exact)
  have "25 \<le> length (bytes_to_binary more @ rest)"
    using more rest by (simp add: length_bytes_to_binary)
  with s six show ?thesis using m by (intro decodeText_fallback)
qed

lemma byte_bits_0: "byte_bits 0 = [False, False, False, False, False, False, False, False]"
proof -
  have "replicate 8 False = [False, False, False, False, False, False, False, False]"
    by (simp add: numeral_eq_Suc)
  then show ?thesis by (simp only: byte_bits_zero)
qed

lemma byte_bits_66: "byte_bits 66 = [False, True, False, False, False, False, True, False]"
  by (simp add: byte_bits_def padStart8_def toString2.simps)

text \<open>
  Claim C10: in the legacy scan a completed byte \<open>0\<close> appends nothing and the scan goes on
  with the text unchanged, while a byte from 1 to 255 appends exactly one character;
  \<open>decodeText\<close> fails with \<open>NoMessageFound\<close> on every raster whose samples are all \<open>0\<close>; a
  legacy payload is decoded to its bytes without the zero bytes, so the scan never returns
  a text that contains the character \<open>0\<close>.
\<close>

theorem C10:
  "legacy_append s 0 = s \<and>
   (0 < c \<and> c < 256 \<longrightarrow> legacy_append s c = s @ [c]) \<and>
   (rgb_bits i ds0 = byte_bits 0 \<and> length bin mod 8 = 0 \<longrightarrow>
      legacy_scan i (ds0 @ ds) bin s =
        (if endsWith s DELIMITER then Inr (slice_end s (length DELIMITER))
         else if length s > 1000000 then Inl NoMessageFound
         else legacy_scan (i + length ds0) ds (bin @ byte_bits 0) s)) \<and>
   (rgb_bits i ds1 = byte_bits c \<and> 0 < c \<and> c < 256 \<and> length bin mod 8 = 0 \<longrightarrow>
      legacy_scan i (ds1 @ ds) bin s =
        (if endsWith (s @ [c]) DELIMITER then Inr (slice_end (s @ [c]) (length DELIMITER))
         else if length (s @ [c]) > 1000000 then Inl NoMessageFound
         else legacy_scan (i + length ds1) ds (bin @ byte_bits c) (s @ [c]))) \<and>
   decodeText \<lparr>width = w, height = h, data = replicate n 0\<rparr> = Inl NoMessageFound \<and>
   (rgb_bits 0 (data r) = bytes_to_binary (cs @ DELIMITER) @ rest \<and>
    (\<forall>x\<in>set cs. x < 256) \<and>
    first_delimiter_last (filter (\<lambda>x. x \<noteq> 0) cs) \<and>
    length (filter (\<lambda>x. x \<noteq> 0) cs) + 6 \<le> 1000000 \<longrightarrow>
      decodeLegacyFormat r = Inr (filter (\<lambda>x. x \<noteq> 0) cs) \<and>
      (take 6 (cs @ DELIMITER) \<noteq> MAGIC_HEADER \<and> 17 \<le> length rest \<longrightarrow>
         decodeText r = Inr (filter (\<lambda>x. x \<noteq> 0) cs))) \<and>
   (0 \<in> set t \<longrightarrow> decodeLegacyFormat r' \<noteq> Inr t)"
proof -
  have a: "rgb_bits i ds0 = byte_bits 0 \<and> length bin mod 8 = 0 \<longrightarrow>
      legacy_scan i (ds0 @ ds) bin s =
        (if endsWith s DELIMITER then Inr (slice_end s (length DELIMITER))
         else if length s > 1000000 then Inl NoMessageFound
         else legacy_scan (i + length ds0) ds (bin @ byte_bits 0) s)"
    using legacy_scan_byte [of i ds0 0 bin ds s]
    by (simp add: legacy_append_zero Let_def)
  have b: "rgb_bits i ds1 = byte_bits c \<and> 0 < c \<and> c < 256 \<and> length bin mod 8 = 0 \<longrightarrow>
      legacy_scan i (ds1 @ ds) bin s =
        (if endsWith (s @ [c]) DELIMITER then Inr (slice_end (s @ [c]) (length DELIMITER))
         else if length (s @ [c]) > 1000000 then Inl NoMessageFound
         else legacy_scan (i + length ds1) ds (bin @ byte_bits c) (s @ [c]))"
    using legacy_scan_byte [of i ds1 c bin ds s]
    by (simp add: legacy_append_byte Let_def)
  have d: "rgb_bits 0 (data r) = bytes_to_binary (cs @ DELIMITER) @ rest \<and>
    (\<forall>x\<in>set cs. x < 256) \<and>
    first_delimiter_last (filter (\<lambda>x. x \<noteq> 0) cs) \<and>
    length (filter (\<lambda>x. x \<noteq> 0) cs) + 6 \<le> 1000000 \<longrightarrow>
      decodeLegacyFormat r = Inr (filter (\<lambda>x. x \<noteq> 0) cs) \<and>
      (take 6 (cs @ DELIMITER) \<noteq> MAGIC_HEADER \<and> 17 \<le> length rest \<longrightarrow>
         decodeText r = Inr (filter (\<lambda>x. x \<noteq> 0) cs))"
  proof (intro impI, elim conjE)
    assume h: "rgb_bits 0 (data r) = bytes_to_binary (cs @ DELIMITER) @ rest"
      "\<forall>x\<in>set cs. x < 256"
      "first_delimiter_last (filter (\<lambda>x. x \<noteq> 0) cs)"
      "length (filter (\<lambda>x. x \<noteq> 0) cs) + 6 \<le> 1000000"
    have l: "decodeLegacyFormat r = Inr (filter (\<lambda>x. x \<noteq> 0) cs)"
      unfolding decodeLegacyFormat_bits h(1) using h(2-4) by (rule legacy_decode_payload)
    moreover have "take 6 (cs @ DELIMITER) \<noteq> MAGIC_HEADER \<and> 17 \<le> length rest \<longrightarrow>
        decodeText r = Inr (filter (\<lambda>x. x \<noteq> 0) cs)"
      using decodeText_legacy_payload [OF h(1,2)] l by auto
    ultimately show "decodeLegacyFormat r = Inr (filter (\<lambda>x. x \<noteq> 0) cs) \<and>
      (take 6 (cs @ DELIMITER) \<noteq> MAGIC_HEADER \<and> 17 \<le> length rest \<longrightarrow>
         decodeText r = Inr (filter (\<lambda>x. x \<noteq> 0) cs))"
      by (rule conjI)
  qed
  have e: "0 \<in> set t \<longrightarrow> decodeLegacyFormat r' \<noteq> Inr t"
    using legacy_bits_nonzero [of "[]" "rgb_bits 0 (data r')" "[]" t]
    by (auto simp: decodeLegacyFormat_bits)
  have z: "decodeText \<lparr>width = w, height = h, data = replicate n 0\<rparr> = Inl NoMessageFound"
    by (rule decodeText_zero)
  have p: "legacy_append s 0 = s \<and> (0 < c \<and> c < 256 \<longrightarrow> legacy_append s c = s @ [c])"
    by (simp add: legacy_append_zero legacy_append_byte)
  from p a b z d e show ?thesis by (intro conjI) (erule conjunct1 conjunct2 asm_rl)+
qed


lemma first_delimiter_last_AB: "first_delimiter_last [65, 66]"
  by (simp add: first_delimiter_last_def endsWith_def DELIMITER_eq)

lemma stream_A0B:
  "rgb_bits 0 (data (carrier 10 10 (bytes_to_binary ([65, 0, 66] @ DELIMITER))))
     = bytes_to_binary ([65, 0, 66] @ DELIMITER) @ replicate 220 False"
proof -
  let ?b = "bytes_to_binary ([65, 0, 66] @ DELIMITER)"
  have "length ?b = 80"
    by (subst length_bytes_to_binary) (simp_all add: DELIMITER_eq)
  then show ?thesis using rgb_bits_carrier [of ?b 10 10] by simp
qed

theorem C10_witness:
  "legacy_append [65] 0 = [65] \<and> legacy_append [65] 66 = [65, 66] \<and>
   legacy_scan 0 ([0, 0, 0, 255, 0, 0, 0, 255, 0, 0] @ [1, 255]) [] [65]
     = legacy_scan 10 [1, 255] (byte_bits 0) [65] \<and>
   legacy_scan 0 ([0, 1, 0, 255, 0, 0, 0, 255, 1, 0] @ [1, 255]) [] [65]
     = legacy_scan 10 [1, 255] (byte_bits 66) [65, 66] \<and>
   decodeText (blank 10 10) = Inl NoMessageFound \<and>
   decodeLegacyFormat (carrier 10 10 (bytes_to_binary ([65, 0, 66] @ DELIMITER))) = Inr [65, 66] \<and>
   decodeText (carrier 10 10 (bytes_to_binary ([65, 0, 66] @ DELIMITER))) = Inr [65, 66] \<and>
   decodeLegacyFormat (carrier 10 10 (bytes_to_binary ([65, 0, 66] @ DELIMITER)))
     \<noteq> Inr [65, 0, 66]"
proof -
  let ?r = "carrier 10 10 (bytes_to_binary ([65, 0, 66] @ DELIMITER))"
  note w = C10 [where s = "[65]" and c = 66 and i = 0 and bin = "[]" and ds = "[1, 255]"
      and ?ds0.0 = "[0, 0, 0, 255, 0, 0, 0, 255, 0, 0]"
      and ?ds1.0 = "[0, 1, 0, 255, 0, 0, 0, 255, 1, 0]"
      and w = 10 and h = 10 and n = 400
      and r = ?r and cs = "[65, 0, 66]" and rest = "replicate 220 False"
      and t = "[65, 0, 66]" and r' = ?r]
  have h0: "rgb_bits 0 [0, 0, 0, 255, 0, 0, 0, 255, 0, 0] = byte_bits 0"
    by (simp add: byte_bits_0)
  have h1: "rgb_bits 0 [0, 1, 0, 255, 0, 0, 0, 255, 1, 0] = byte_bits 66"
    by (simp add: byte_bits_66)
  have e: "\<not> endsWith [65] DELIMITER" "\<not> endsWith [65, 66] DELIMITER"
    by (simp_all add: endsWith_def)
  have f: "filter (\<lambda>x. x \<noteq> 0) [65, 0, 66] = [65, 66 :: nat]" by simp
  have m: "take 6 ([65, 0, 66] @ DELIMITER) \<noteq> MAGIC_HEADER" by (simp add: MAGIC_eq)
  have 1: "legacy_append [65] 0 = [65] \<and> legacy_append [65] 66 = [65, 66]"
    using w by simp
  have 2: "legacy_scan 0 ([0, 0, 0, 255, 0, 0, 0, 255, 0, 0] @ [1, 255]) [] [65]
      = legacy_scan 10 [1, 255] (byte_bits 0) [65]"
    using w [THEN conjunct2, THEN conjunct2, THEN conjunct1] h0 e by simp
  have 3: "legacy_scan 0 ([0, 1, 0, 255, 0, 0, 0, 255, 1, 0] @ [1, 255]) [] [65]
      = legacy_scan 10 [1, 255] (byte_bits 66) [65, 66]"
    using w [THEN conjunct2, THEN conjunct2, THEN conjunct2, THEN conjunct1] h1 e by simp
  have 4: "decodeText (blank 10 10) = Inl NoMessageFound"
    using w by (simp add: blank_def)
  have 5: "decodeLegacyFormat ?r = Inr [65, 66] \<and> decodeText ?r = Inr [65, 66]"
    using w [THEN conjunct2, THEN conjunct2, THEN conjunct2, THEN conjunct2, THEN conjunct2,
        THEN conjunct1] stream_A0B first_delimiter_last_AB m
    unfolding f by simp
  have 6: "decodeLegacyFormat ?r \<noteq> Inr [65, 0, 66]"
    using w by simp
  from 1 2 3 4 5 6 show ?thesis by blast
qed

section \<open>The legacy format\<close>

lemma first_delimiter_last_Nil: "first_delimiter_last []"
  by (simp add: first_delimiter_last_def endsWith_def list_all_iff)

text \<open>
  Claim C5 fails on the code. A raster of 25 pixels has 75 usable bits, fewer than 80, yet
  \<open>match(/.{1,8}/g)\<close> cuts them into ten groups, the last of three bits, and the header
  check passes. When the first 56 bits spell the delimiter, the legacy scan finds it and
  \<open>decodeText\<close> returns the empty string.
\<close>

theorem C5_short_header:
  "length (rgb_bits 0 (data (carrier 25 1 (bytes_to_binary DELIMITER)))) = 75 \<and>
   decodeText (carrier 25 1 (bytes_to_binary DELIMITER)) = Inr []"
proof -
  let ?r = "carrier 25 1 (bytes_to_binary DELIMITER)"
  have l: "length (bytes_to_binary DELIMITER) = 56"
    by (simp add: length_bytes_to_binary DELIMITER_eq)
  then have s: "rgb_bits 0 (data ?r) = bytes_to_binary DELIMITER @ replicate 19 False"
    using rgb_bits_carrier [of "bytes_to_binary DELIMITER" 25 1] by simp
  then have s': "rgb_bits 0 (data ?r) =
      bytes_to_binary [36, 36, 69, 78, 68, 36] @ (byte_bits 36 @ replicate 19 False)"
    by (simp add: DELIMITER_eq)
  have m: "TextDecoder_decode [36, 36, 69, 78, 68, 36] \<noteq> MAGIC_HEADER"
    by (rule magic_exact) (simp_all add: MAGIC_eq)
  have "decodeText ?r = decodeLegacyFormat ?r"
    using s' _ _ _ m by (rule decodeText_fallback) simp_all
  also have "\<dots> = legacy_bits (bytes_to_binary ([] @ DELIMITER) @ replicate 19 False) [] []"
    unfolding decodeLegacyFormat_bits s by simp
  also have "\<dots> = Inr []"
    by (rule legacy_decode) (simp_all add: first_delimiter_last_Nil)
  finally show ?thesis using s l by simp
qed

lemma legacy_capacity_bits:
  assumes "int n \<le> legacy_calculateCapacity (int w) (int h)"
  shows "8 * n + 56 \<le> 3 * (w * h)"
proof -
  define x where "x = int w * int h * 3 - 56"
  have "8 * (x div 8) \<le> x"
    using div_mult_mod_eq [of x 8] pos_mod_sign [of 8 x] by linarith
  moreover have "int n \<le> x div 8" using assms by (simp add: legacy_calculateCapacity_def x_def)
  ultimately have "8 * int n \<le> x" by linarith
  then have "int (8 * n + 56) \<le> int (3 * (w * h))" by (simp add: x_def)
  then show ?thesis by (simp only: of_nat_le_iff)
qed

lemma legacy_textToBinary_bytes: "legacy_textToBinary s = bytes_to_binary s"
  by (simp add: legacy_textToBinary_def bytes_to_binary_def)

text \<open>
  Claim C7, as the code has it. When the legacy encoder returns a buffer for a text whose
  characters are all between 1 and 255, that with the delimiter appended does not start
  with the magic token and has no earlier delimiter, and that has at most 999994
  characters, \<open>decodeText\<close> takes the legacy path and returns the text.
\<close>

theorem C7_amended:
  assumes "length (data r) = 4 * (width r * height r)"
    and "legacy_encodeText r t = Inr r'"
    and "\<forall>c\<in>set t. 0 < c \<and> c < 256"
    and "take 6 (t @ DELIMITER) \<noteq> MAGIC_HEADER"
    and "first_delimiter_last t"
    and "length t + 6 \<le> 1000000"
  shows "decodeText r' = decodeLegacyFormat r' \<and> decodeText r' = Inr t"
proof -
  define bits where "bits = bytes_to_binary (t @ DELIMITER)"
  define tail where "tail = drop (length bits) (rgb_bits 0 (data r))"
  define six where "six = take 6 (t @ DELIMITER)"
  from assms(2) have cap: "int (length t + 7) \<le>
      legacy_calculateCapacity (int (width r)) (int (height r))"
    and r': "r' = r\<lparr>data := embed 0 (data r) bits\<rparr>"
    by (auto simp: legacy_encodeText_def Let_def bits_def legacy_textToBinary_bytes
        split: if_splits)
  have all: "\<forall>x\<in>set (t @ DELIMITER). x < 256" using assms(3) by (auto simp: DELIMITER_eq)
  then have lb: "length bits = 8 * (length t + 7)"
    by (simp add: bits_def length_bytes_to_binary)
  have fits: "8 * (length t + 7) + 56 \<le> 3 * (width r * height r)"
    using cap by (rule legacy_capacity_bits)
  have ls: "length (rgb_bits 0 (data r)) = 3 * (width r * height r)"
    using assms(1) by (intro length_rgb_bits) simp_all
  have "rgb_bits 0 (embed 0 (data r) bits) = bits @ drop (length bits) (rgb_bits 0 (data r))"
    using fits lb ls by (intro rgb_bits_embed) simp
  then have stream: "rgb_bits 0 (data r') = bits @ tail" by (simp add: r' tail_def)
  have lt: "56 \<le> length tail" using fits lb ls by (simp add: tail_def)
  have "t @ DELIMITER = six @ drop 6 (t @ DELIMITER)"
    unfolding six_def by (rule append_take_drop_id [symmetric])
  then have "bits = bytes_to_binary six @ bytes_to_binary (drop 6 (t @ DELIMITER))"
    unfolding bits_def by (metis bytes_to_binary_simps(3))
  with stream have s6: "rgb_bits 0 (data r') =
      bytes_to_binary six @ (bytes_to_binary (drop 6 (t @ DELIMITER)) @ tail)"
    by simp
  have six: "length six = 6" "\<forall>x\<in>set six. x < 256"
    using all by (auto simp: six_def dest: in_set_takeD)
  have m: "TextDecoder_decode six \<noteq> MAGIC_HEADER"
    using six(1) assms(4) unfolding six_def [symmetric] by (rule magic_exact)
  have "decodeText r' = decodeLegacyFormat r'"
    using s6 six _ m by (rule decodeText_fallback) (use lt in simp)
  moreover have "decodeLegacyFormat r' = Inr t"
    unfolding decodeLegacyFormat_bits stream bits_def
    using assms(3,5,6) by (rule legacy_decode)
  ultimately show ?thesis by simp
qed

lemma legacy_encode_hi:
  "legacy_encodeText (blank 10 10) [104, 105]
     = Inr (carrier 10 10 (legacy_textToBinary ([104, 105] @ DELIMITER)))"
  by (simp add: legacy_encodeText_def Let_def legacy_calculateCapacity_def blank_def carrier_def)

lemma first_delimiter_last_hi: "first_delimiter_last [104, 105]"
  by (simp add: first_delimiter_last_def endsWith_def DELIMITER_eq)

theorem C7_witness:
  "legacy_encodeText (blank 10 10) [104, 105]
     = Inr (carrier 10 10 (legacy_textToBinary ([104, 105] @ DELIMITER))) \<and>
   decodeText (carrier 10 10 (legacy_textToBinary ([104, 105] @ DELIMITER))) = Inr [104, 105]"
proof -
  have "decodeText (carrier 10 10 (legacy_textToBinary ([104, 105] @ DELIMITER)))
          = decodeLegacyFormat (carrier 10 10 (legacy_textToBinary ([104, 105] @ DELIMITER))) \<and>
        decodeText (carrier 10 10 (legacy_textToBinary ([104, 105] @ DELIMITER))) = Inr [104, 105]"
    using _ legacy_encode_hi _ _ first_delimiter_last_hi
    by (rule C7_amended) (simp_all add: blank_def DELIMITER_eq MAGIC_eq)
  with legacy_encode_hi show ?thesis by blast
qed

text \<open>
  Claim C7 as stated fails: the legacy encoder accepts the text \<open>STEGO1\<close>; \<open>decodeText\<close> then
  sees the magic token, reads the first four delimiter bytes as the length 606356814 and
  fails with \<open>InvalidLength\<close>.
\<close>

theorem C7_counterexample:
  "legacy_encodeText (blank 10 10) MAGIC_HEADER
     = Inr (carrier 10 10 (legacy_textToBinary (MAGIC_HEADER @ DELIMITER))) \<and>
   decodeText (carrier 10 10 (legacy_textToBinary (MAGIC_HEADER @ DELIMITER)))
     = Inl InvalidLength"
proof -
  let ?bits = "legacy_textToBinary (MAGIC_HEADER @ DELIMITER)"
  have e: "legacy_encodeText (blank 10 10) MAGIC_HEADER = Inr (carrier 10 10 ?bits)"
    by (simp add: legacy_encodeText_def Let_def legacy_calculateCapacity_def blank_def
        carrier_def)
  have l: "length ?bits = 104"
    unfolding legacy_textToBinary_bytes
    by (subst length_bytes_to_binary) (simp_all add: MAGIC_eq DELIMITER_eq)
  have u: "setUint32 606356814 = [36, 36, 69, 78]"
    by (simp add: setUint32_def Let_def)
  have "rgb_bits 0 (data (carrier 10 10 ?bits)) = ?bits @ replicate 196 False"
    using rgb_bits_carrier [of ?bits 10 10] l by simp
  then have s: "rgb_bits 0 (data (carrier 10 10 ?bits)) =
      bytes_to_binary (MAGIC_HEADER @ setUint32 606356814)
        @ (bytes_to_binary [68, 36, 36] @ replicate 196 False)"
    by (simp add: legacy_textToBinary_bytes u DELIMITER_eq)
  have "decodeText (carrier 10 10 ?bits) = Inl InvalidLength"
    using s by (rule decodeText_invalid) simp_all
  with e show ?thesis by simp
qed

end
